theory Spec2Isabelle
  imports
    Complex_Main
    "HOL-Library.AList"
    "HOL-Library.Log_Nat"
    "HOL-Library.Char_ord"
    "HOL-Library.List_Lexorder"
begin

section \<open>Python values used by \<^verbatim>\<open>redfin_scraping.py\<close>\<close>

subsection \<open>Exceptions\<close>

text \<open>
  An exception is its class and its message (\<^verbatim>\<open>str(e)\<close>). Only the distinctions the
  handlers of the source make are kept: \<^verbatim>\<open>except ValueError\<close> matches
  \<open>ValueError\<close>; \<^verbatim>\<open>except Exception\<close> matches every class below except
  \<open>KeyboardInterrupt\<close>, which stands for the classes that derive from
  \<^verbatim>\<open>BaseException\<close> only.
\<close>

datatype exn_class =
    ValueError | OverflowError | EOFError | OSError
  | TimeoutException | WebDriverException | KeyboardInterrupt

datatype exn = Exn exn_class string

fun exn_class_of :: "exn \<Rightarrow> exn_class" where
  "exn_class_of (Exn c m) = c"

fun exn_str :: "exn \<Rightarrow> string" where
  "exn_str (Exn c m) = m"

definition is_Exception :: "exn \<Rightarrow> bool" where
  "is_Exception e = (exn_class_of e \<noteq> KeyboardInterrupt)"

definition is_ValueError :: "exn \<Rightarrow> bool" where
  "is_ValueError e = (exn_class_of e = ValueError)"

subsection \<open>Floats (IEEE binary64)\<close>

text \<open>
  A Python \<^verbatim>\<open>float\<close> is a finite binary64 number (kept as the rational it denotes), an
  infinity or a NaN. The sign of zero is not tracked. Every arithmetic operation is the
  exact operation followed by \<open>fl64\<close>, round-to-nearest, ties to even.
\<close>

datatype pyfloat = Finite rat | PosInf | NegInf | NaN

definition rnd_even :: "rat \<Rightarrow> int" where
  "rnd_even x =
     (let f = \<lfloor>x\<rfloor>; d = x - of_int f
      in if d < 1 / 2 then f
         else if 1 / 2 < d then f + 1
         else if even f then f else f + 1)"

text \<open>\<open>ilog2 x\<close> is \<open>\<lfloor>log\<^sub>2 x\<rfloor>\<close> for a positive rational \<open>x\<close>.\<close>

definition ilog2 :: "rat \<Rightarrow> int" where
  "ilog2 x =
     (let (p, q) = quotient_of x;
          k = int (floorlog 2 (nat p)) - int (floorlog 2 (nat q))
      in if 2 powi k \<le> x then k else k - 1)"

text \<open>
  The exponent of the unit in the last place of the binade that holds \<open>x\<close>: 53 significant
  bits, and nothing finer than \<open>2\<^sup>-\<^sup>1\<^sup>0\<^sup>7\<^sup>4\<close> (the subnormals).
\<close>

definition ulp_exp :: "rat \<Rightarrow> int" where
  "ulp_exp x = max (ilog2 \<bar>x\<bar> - 52) (- 1074)"

definition fl64_rat :: "rat \<Rightarrow> rat" where
  "fl64_rat x =
     (if x = 0 then 0
      else of_int (rnd_even (x / 2 powi (ulp_exp x))) * 2 powi (ulp_exp x))"

definition fl64 :: "rat \<Rightarrow> pyfloat" where
  "fl64 x =
     (let y = fl64_rat x
      in if 2 ^ 1024 \<le> y then PosInf
         else if y \<le> - (2 ^ 1024) then NegInf
         else Finite y)"

text \<open>\<^verbatim>\<open>x * y\<close> and \<^verbatim>\<open>x + y\<close> on floats.\<close>

fun fmul :: "pyfloat \<Rightarrow> pyfloat \<Rightarrow> pyfloat" where
  "fmul (Finite a) (Finite b) = fl64 (a * b)"
| "fmul NaN y = NaN"
| "fmul x NaN = NaN"
| "fmul PosInf (Finite b) = (if b = 0 then NaN else if 0 < b then PosInf else NegInf)"
| "fmul NegInf (Finite b) = (if b = 0 then NaN else if 0 < b then NegInf else PosInf)"
| "fmul (Finite a) PosInf = (if a = 0 then NaN else if 0 < a then PosInf else NegInf)"
| "fmul (Finite a) NegInf = (if a = 0 then NaN else if 0 < a then NegInf else PosInf)"
| "fmul PosInf PosInf = PosInf"
| "fmul PosInf NegInf = NegInf"
| "fmul NegInf PosInf = NegInf"
| "fmul NegInf NegInf = PosInf"

fun fadd :: "pyfloat \<Rightarrow> pyfloat \<Rightarrow> pyfloat" where
  "fadd (Finite a) (Finite b) = fl64 (a + b)"
| "fadd NaN y = NaN"
| "fadd x NaN = NaN"
| "fadd PosInf NegInf = NaN"
| "fadd NegInf PosInf = NaN"
| "fadd PosInf y = PosInf"
| "fadd NegInf y = NegInf"
| "fadd x PosInf = PosInf"
| "fadd x NegInf = NegInf"

text \<open>\<^verbatim>\<open>-x\<close> and \<^verbatim>\<open>x - y\<close> on floats.\<close>

fun fneg :: "pyfloat \<Rightarrow> pyfloat" where
  "fneg (Finite a) = Finite (- a)"
| "fneg PosInf = NegInf"
| "fneg NegInf = PosInf"
| "fneg NaN = NaN"

definition fsub :: "pyfloat \<Rightarrow> pyfloat \<Rightarrow> pyfloat" where
  "fsub x y = fadd x (fneg y)"

text \<open>\<^verbatim>\<open>x <= y\<close> on floats: false as soon as one side is a NaN.\<close>

fun fle :: "pyfloat \<Rightarrow> pyfloat \<Rightarrow> bool" where
  "fle (Finite a) (Finite b) = (a \<le> b)"
| "fle NaN y = False"
| "fle x NaN = False"
| "fle NegInf y = True"
| "fle x PosInf = True"
| "fle PosInf y = False"
| "fle x NegInf = False"

text \<open>
  \<^verbatim>\<open>round(x, 2)\<close>: the correctly rounded two-decimal representation of \<open>x\<close> (ties to
  even), read back as the nearest float; infinities and NaN round to themselves.
\<close>

fun py_round2 :: "pyfloat \<Rightarrow> pyfloat" where
  "py_round2 (Finite a) = fl64 (of_int (rnd_even (a * 100)) / 100)"
| "py_round2 x = x"

text \<open>A float literal of the source, such as \<^verbatim>\<open>0.02\<close>, is the float nearest to it.\<close>

definition f1000 :: pyfloat where "f1000 = fl64 1000"
definition f1 :: pyfloat where "f1 = fl64 1"

subsection \<open>Strings\<close>

text \<open>
  A Python \<^verbatim>\<open>str\<close> is modelled as a \<open>string\<close> whose characters are the code points 0
  to 255. Among them \<^verbatim>\<open>str.strip()\<close> removes the characters 9 to 13, 28 to 32, 133
  (U+0085) and 160 (U+00A0). \<^verbatim>\<open>float()\<close> removes fewer: 9 to 13, 32, 133 and 160, but
  not the separators 28 to 31.
\<close>

definition is_space :: "char \<Rightarrow> bool" where
  "is_space c =
     (let n = (of_char c :: nat)
      in (9 \<le> n \<and> n \<le> 13) \<or> (28 \<le> n \<and> n \<le> 32) \<or> n = 133 \<or> n = 160)"

definition is_float_space :: "char \<Rightarrow> bool" where
  "is_float_space c =
     (let n = (of_char c :: nat)
      in (9 \<le> n \<and> n \<le> 13) \<or> n = 32 \<or> n = 133 \<or> n = 160)"

definition py_strip :: "string \<Rightarrow> string" where
  "py_strip s = rev (dropWhile is_space (rev (dropWhile is_space s)))"

definition float_strip :: "string \<Rightarrow> string" where
  "float_strip s = rev (dropWhile is_float_space (rev (dropWhile is_float_space s)))"

definition is_digit :: "char \<Rightarrow> bool" where
  "is_digit c = (let n = (of_char c :: nat) in 48 \<le> n \<and> n \<le> 57)"

definition digit_val :: "char \<Rightarrow> nat" where
  "digit_val c = of_char c - 48"

text \<open>The value of a digit string, most significant digit first.\<close>

definition digits_val :: "string \<Rightarrow> nat" where
  "digits_val ds = foldl (\<lambda>acc c. 10 * acc + digit_val c) 0 ds"

definition lower_char :: "char \<Rightarrow> char" where
  "lower_char c =
     (let n = (of_char c :: nat) in if 65 \<le> n \<and> n \<le> 90 then char_of (n + 32) else c)"

text \<open>\<^verbatim>\<open>s.replace(c, '')\<close> for a one-character \<open>c\<close>: every occurrence goes.\<close>

definition remove_char :: "char \<Rightarrow> string \<Rightarrow> string" where
  "remove_char c s = filter (\<lambda>x. x \<noteq> c) s"

subsection \<open>\<^verbatim>\<open>float(str)\<close>\<close>

text \<open>
  Digits may be grouped by single underscores: an underscore is accepted only directly
  after a digit and directly before a digit. \<open>strip_underscores prev s\<close> walks \<open>s\<close> with
  the previous character \<open>prev\<close> and returns the text without underscores.
\<close>

fun strip_underscores :: "char \<Rightarrow> string \<Rightarrow> string option" where
  "strip_underscores prev [] = (if prev = CHR ''_'' then None else Some [])"
| "strip_underscores prev (c # cs) =
     (if c = CHR ''_'' then
        (if is_digit prev then strip_underscores c cs else None)
      else if prev = CHR ''_'' \<and> \<not> is_digit c then None
      else map_option ((#) c) (strip_underscores c cs))"

text \<open>An optional sign: the result is whether it was a minus, and the rest.\<close>

fun take_sign :: "string \<Rightarrow> bool \<times> string" where
  "take_sign (c # cs) =
     (if c = CHR ''-'' then (True, cs) else if c = CHR ''+'' then (False, cs) else (False, c # cs))"
| "take_sign [] = (False, [])"

text \<open>
  The exponent part: nothing, or \<^verbatim>\<open>e\<close>/\<^verbatim>\<open>E\<close>, an optional sign and at least one
  digit, up to the end of the text.
\<close>

definition parse_exponent :: "string \<Rightarrow> int option" where
  "parse_exponent s =
     (case s of
        [] \<Rightarrow> Some 0
      | c # cs \<Rightarrow>
          if c = CHR ''e'' \<or> c = CHR ''E'' then
            (let (neg, ds) = take_sign cs
             in if ds \<noteq> [] \<and> list_all is_digit ds
                then Some (if neg then - int (digits_val ds) else int (digits_val ds))
                else None)
          else None)"

text \<open>
  An unsigned decimal number: digits, an optional point, digits (at least one digit in
  all), and the exponent part. The result is the exact rational it denotes.
\<close>

definition parse_decimal :: "string \<Rightarrow> rat option" where
  "parse_decimal s =
     (let ip = takeWhile is_digit s; r1 = dropWhile is_digit s;
          (fp, r2) = (case r1 of
                        [] \<Rightarrow> ([], [])
                      | c # cs \<Rightarrow> if c = CHR ''.''
                                  then (takeWhile is_digit cs, dropWhile is_digit cs)
                                  else ([], r1))
      in if ip = [] \<and> fp = [] then None
         else case parse_exponent r2 of
                None \<Rightarrow> None
              | Some ex \<Rightarrow>
                  Some (of_nat (digits_val (ip @ fp)) * 10 powi (ex - int (length fp))))"

definition parse_sign_body :: "string \<Rightarrow> pyfloat option" where
  "parse_sign_body s =
     (let (neg, body) = take_sign s; low = map lower_char body
      in if low = ''inf'' \<or> low = ''infinity'' then Some (if neg then NegInf else PosInf)
         else if low = ''nan'' then Some NaN
         else case parse_decimal body of
                None \<Rightarrow> None
              | Some v \<Rightarrow> Some (fl64 (if neg then - v else v)))"

text \<open>
  \<^verbatim>\<open>repr\<close> of a text without quotes, backslashes or control characters: the text
  between single quotes.
\<close>

definition py_repr :: "string \<Rightarrow> string" where
  "py_repr s = [CHR 0x27] @ s @ [CHR 0x27]"

definition float_error :: "string \<Rightarrow> exn" where
  "float_error s = Exn ValueError (''could not convert string to float: '' @ py_repr s)"

definition py_float :: "string \<Rightarrow> exn + pyfloat" where
  "py_float s =
     (let t = float_strip s;
          u = (if CHR ''_'' \<in> set t then strip_underscores (CHR 0x00) t else Some t)
      in case u of
           None \<Rightarrow> Inl (float_error s)
         | Some body \<Rightarrow>
             (case parse_sign_body body of
                None \<Rightarrow> Inl (float_error s)
              | Some x \<Rightarrow> Inr x))"

subsection \<open>The price text\<close>

text \<open>
  Lines 116 to 120 of the source: remove \<^verbatim>\<open>$\<close> and \<^verbatim>\<open>,\<close>; when a \<^verbatim>\<open>K\<close>
  is left anywhere, remove every \<^verbatim>\<open>K\<close> and multiply by 1000.
\<close>

definition clean_price :: "string \<Rightarrow> string" where
  "clean_price price_text = remove_char (CHR '','') (remove_char (CHR ''$'') price_text)"

definition parse_price :: "string \<Rightarrow> exn + pyfloat" where
  "parse_price price_text =
     (let price_value = clean_price price_text
      in if CHR ''K'' \<in> set price_value then
           (case py_float (remove_char (CHR ''K'') price_value) of
              Inl e \<Rightarrow> Inl e
            | Inr x \<Rightarrow> Inr (fmul x f1000))
         else py_float price_value)"

section \<open>Dates (\<^verbatim>\<open>datetime\<close>, \<^verbatim>\<open>timedelta\<close>, \<^verbatim>\<open>strftime\<close>)\<close>

text \<open>
  A naive \<^verbatim>\<open>datetime\<close>: the calendar date and the time of day (in microseconds since
  midnight). Subtracting a whole number of days goes through the proleptic Gregorian
  ordinal of the date, as the library does, and leaves the time of day alone.
\<close>

record datetime =
  dt_year :: int
  dt_month :: int
  dt_day :: int
  dt_time :: nat

definition MAXORDINAL :: int where
  "MAXORDINAL = 3652059"

definition is_leap :: "int \<Rightarrow> bool" where
  "is_leap y = (y mod 4 = 0 \<and> (y mod 100 \<noteq> 0 \<or> y mod 400 = 0))"

definition DAYS_IN_MONTH :: "int list" where
  "DAYS_IN_MONTH = [- 1, 31, 28, 31, 30, 31, 30, 31, 31, 30, 31, 30, 31]"

definition DAYS_BEFORE_MONTH :: "int list" where
  "DAYS_BEFORE_MONTH = [- 1, 0, 31, 59, 90, 120, 151, 181, 212, 243, 273, 304, 334]"

definition days_before_year :: "int \<Rightarrow> int" where
  "days_before_year y = (y - 1) * 365 + (y - 1) div 4 - (y - 1) div 100 + (y - 1) div 400"

definition days_before_month :: "int \<Rightarrow> int \<Rightarrow> int" where
  "days_before_month y m =
     DAYS_BEFORE_MONTH ! nat m + (if 2 < m \<and> is_leap y then 1 else 0)"

definition ymd2ord :: "int \<Rightarrow> int \<Rightarrow> int \<Rightarrow> int" where
  "ymd2ord y m d = days_before_year y + days_before_month y m + d"

text \<open>
  The inverse, for an ordinal between 1 and \<open>MAXORDINAL\<close>: 400-year, 100-year and 4-year
  cycles, then the month estimated as \<^verbatim>\<open>(n + 50) >> 5\<close> and corrected.
\<close>

definition ord2ymd :: "int \<Rightarrow> int \<times> int \<times> int" where
  "ord2ymd ordinal =
     (let n = ordinal - 1;
          n400 = n div 146097; n = n mod 146097;
          n100 = n div 36524; n = n mod 36524;
          n4 = n div 1461; n = n mod 1461;
          n1 = n div 365; n = n mod 365;
          y = n400 * 400 + 1 + n100 * 100 + n4 * 4 + n1
      in if n1 = 4 \<or> n100 = 4 then (y - 1, 12, 31)
         else
           (let leapyear = (n1 = 3 \<and> (n4 \<noteq> 24 \<or> n100 = 3));
                m = (n + 50) div 32;
                preceding = DAYS_BEFORE_MONTH ! nat m + (if 2 < m \<and> leapyear then 1 else 0)
            in if n < preceding
               then (y, m - 1,
                     n - (preceding
                          - (DAYS_IN_MONTH ! nat (m - 1)
                             + (if m - 1 = 2 \<and> leapyear then 1 else 0))) + 1)
               else (y, m, n - preceding + 1)))"

definition toordinal :: "datetime \<Rightarrow> int" where
  "toordinal dt = ymd2ord (dt_year dt) (dt_month dt) (dt_day dt)"

text \<open>
  \<^verbatim>\<open>dt - timedelta(days=n)\<close>: an \<open>OverflowError\<close> when the result leaves the years 1
  to 9999.
\<close>

definition datetime_sub_days :: "datetime \<Rightarrow> int \<Rightarrow> exn + datetime" where
  "datetime_sub_days dt n =
     (let ordinal = toordinal dt - n
      in if 0 < ordinal \<and> ordinal \<le> MAXORDINAL then
           (case ord2ymd ordinal of
              (y, m, d) \<Rightarrow> Inr (dt\<lparr>dt_year := y, dt_month := m, dt_day := d\<rparr>))
         else Inl (Exn OverflowError ''date value out of range''))"

text \<open>Decimal digits of a natural number, and the two-digit form with a leading zero.\<close>

definition digit_char :: "nat \<Rightarrow> char" where
  "digit_char d = ''0123456789'' ! d"

fun str_nat :: "nat \<Rightarrow> string" where
  "str_nat n = (if n < 10 then [digit_char n] else str_nat (n div 10) @ [digit_char (n mod 10)])"

declare str_nat.simps [simp del]

definition pad2 :: "nat \<Rightarrow> string" where
  "pad2 n = (if n < 10 then CHR ''0'' # str_nat n else str_nat n)"

text \<open>
  \<^verbatim>\<open>strftime("%Y-%m")\<close>. The year is written in decimal without padding, which is what
  the C library of Linux does; from the year 1000 on it is four digits on every platform.
\<close>

definition strftime_Ym :: "datetime \<Rightarrow> string" where
  "strftime_Ym dt = str_nat (nat (dt_year dt)) @ ''-'' @ pad2 (nat (dt_month dt))"

section \<open>The synthetic series (lines 122 to 132)\<close>

text \<open>
  The dictionary \<^verbatim>\<open>monthly_data\<close> is an association list in insertion order; storing
  under a key that is present replaces the value in place, storing under a new key
  appends, which is \<open>AList.update\<close>.

  The source of randomness is a parameter: \<open>uniform a b i\<close> is what the call
  \<^verbatim>\<open>random.uniform(a, b)\<close> of iteration \<open>i\<close> returns. The library computes it as
  \<^verbatim>\<open>a + (b - a) * random()\<close>, which is \<open>py_uniform\<close> below, \<open>randoms i\<close> being the float in
  \<open>[0, 1)\<close> that \<^verbatim>\<open>random()\<close> returns at that call.
\<close>

type_synonym pydict = "(string \<times> pyfloat) list"

definition f002 :: pyfloat where "f002 = fl64 (1 / 50)"
definition fm002 :: pyfloat where "fm002 = fl64 (- (1 / 50))"

definition py_uniform :: "(nat \<Rightarrow> pyfloat) \<Rightarrow> pyfloat \<Rightarrow> pyfloat \<Rightarrow> nat \<Rightarrow> pyfloat" where
  "py_uniform randoms a b i = fadd a (fmul (fsub b a) (randoms i))"

fun series_loop ::
  "datetime \<Rightarrow> pyfloat \<Rightarrow> (pyfloat \<Rightarrow> pyfloat \<Rightarrow> nat \<Rightarrow> pyfloat) \<Rightarrow> nat list \<Rightarrow> pydict
     \<Rightarrow> exn + pydict" where
  "series_loop current_date current_price uniform [] monthly_data = Inr monthly_data"
| "series_loop current_date current_price uniform (i # rest) monthly_data =
     (case datetime_sub_days current_date (30 * int i) of
        Inl e \<Rightarrow> Inl e
      | Inr d \<Rightarrow>
          (let date_key = strftime_Ym d;
               variation = uniform fm002 f002 i;
               monthly_price = fmul current_price (fadd f1 variation)
           in series_loop current_date current_price uniform rest
                (AList.update date_key (py_round2 monthly_price) monthly_data)))"

definition synthetic_series ::
  "datetime \<Rightarrow> pyfloat \<Rightarrow> (pyfloat \<Rightarrow> pyfloat \<Rightarrow> nat \<Rightarrow> pyfloat) \<Rightarrow> exn + pydict" where
  "synthetic_series current_date current_price uniform =
     series_loop current_date current_price uniform [0..<36] []"

text \<open>The key and the value that iteration \<open>i\<close> of the loop stores.\<close>

definition date_key :: "datetime \<Rightarrow> nat \<Rightarrow> exn + string" where
  "date_key current_date i =
     (case datetime_sub_days current_date (30 * int i) of
        Inl e \<Rightarrow> Inl e
      | Inr d \<Rightarrow> Inr (strftime_Ym d))"

definition stored_price :: "pyfloat \<Rightarrow> pyfloat \<Rightarrow> pyfloat" where
  "stored_price current_price variation =
     py_round2 (fmul current_price (fadd f1 variation))"

text \<open>
  The generator as section 4.3 of the specification words it, to be compared with
  \<open>synthetic_series\<close>: for \<open>i\<close> from 0 to 35, the candidate date is the anchor time minus
  \<open>30 \<times> i\<close> days, formatted as year and month; the perturbation is drawn from the closed
  interval from -0.02 to +0.02; the perturbed price is the anchor price times one plus
  the perturbation, rounded to two decimals and stored under the key, a later iteration
  overwriting an earlier one.
\<close>

definition spec_candidate_date :: "datetime \<Rightarrow> nat \<Rightarrow> datetime" where
  "spec_candidate_date anchor_time i =
     (case ord2ymd (toordinal anchor_time - 30 * int i) of
        (y, m, d) \<Rightarrow> anchor_time\<lparr>dt_year := y, dt_month := m, dt_day := d\<rparr>)"

definition spec_perturbed_price :: "pyfloat \<Rightarrow> pyfloat \<Rightarrow> pyfloat" where
  "spec_perturbed_price anchor_price perturbation = fmul anchor_price (fadd f1 perturbation)"

definition spec_perturbation :: "(pyfloat \<Rightarrow> pyfloat \<Rightarrow> nat \<Rightarrow> pyfloat) \<Rightarrow> nat \<Rightarrow> pyfloat" where
  "spec_perturbation uniform i = uniform (fl64 (- (2 / 100))) (fl64 (2 / 100)) i"

definition spec_iteration ::
  "pyfloat \<Rightarrow> datetime \<Rightarrow> (pyfloat \<Rightarrow> pyfloat \<Rightarrow> nat \<Rightarrow> pyfloat) \<Rightarrow> pydict \<Rightarrow> nat \<Rightarrow> pydict" where
  "spec_iteration anchor_price anchor_time uniform series i =
     AList.update (strftime_Ym (spec_candidate_date anchor_time i))
       (py_round2 (spec_perturbed_price anchor_price (spec_perturbation uniform i))) series"

definition spec_expand ::
  "pyfloat \<Rightarrow> datetime \<Rightarrow> (pyfloat \<Rightarrow> pyfloat \<Rightarrow> nat \<Rightarrow> pyfloat) \<Rightarrow> pydict" where
  "spec_expand anchor_price anchor_time uniform =
     foldl (spec_iteration anchor_price anchor_time uniform) [] [0..<36]"

text \<open>
  Whether every value of a series lies between two floats, and the series a run
  produced (empty when the generator raised).
\<close>

definition values_within :: "pyfloat \<Rightarrow> pyfloat \<Rightarrow> pydict \<Rightarrow> bool" where
  "values_within lo hi series = list_all (\<lambda>kv. fle lo (snd kv) \<and> fle (snd kv) hi) series"

definition series_of :: "exn + pydict \<Rightarrow> pydict" where
  "series_of r = (case r of Inl e \<Rightarrow> [] | Inr series \<Rightarrow> series)"

definition f098 :: pyfloat where "f098 = fl64 (49 / 50)"
definition f102 :: pyfloat where "f102 = fl64 (51 / 50)"

section \<open>The browser session\<close>

text \<open>
  The calls the program makes on the Selenium driver and on the elements it finds. The
  browser is a parameter: a state \<open>'s\<close> and a function \<open>respond\<close> that gives, for a state
  and a call, the result of the call (an exception, or the text it returns; calls that
  return nothing return the empty text) and the next state. A counting fake is one such
  function.
\<close>

datatype webcall =
    Get string
  | WaitClickable string
  | FindElement string
  | Clear
  | SendKeys string
  | SendReturn
  | WaitUrlContains string
  | CurrentUrl
  | WaitPresence string
  | ElementText
  | Quit

datatype log_level = INFO | WARNING | ERROR

text \<open>
  What a run does that can be observed, in order: driver calls, sleeps (the duration is
  not kept), log records, prompts, printed lines (a price line
  \<^verbatim>\<open>f"{date_key}: ${price:,.2f}"\<close> is kept as its key and its price), and the three steps
  of writing the result file (\<^verbatim>\<open>open\<close>, \<^verbatim>\<open>json.dump(prices, f, indent=2)\<close> kept as the
  object and the indent, and the close at the end of the \<^verbatim>\<open>with\<close> block).
\<close>

datatype event =
    Call webcall
  | Sleep
  | Log log_level string
  | Input string
  | Print string
  | PrintPrice string pyfloat
  | OpenForWrite string
  | JsonDump pydict nat
  | CloseFile

record 's env =
  respond :: "'s \<Rightarrow> webcall \<Rightarrow> (exn + string) \<times> 's"
  clock :: datetime
  random_uniform :: "pyfloat \<Rightarrow> pyfloat \<Rightarrow> nat \<Rightarrow> pyfloat"
  open_error :: "exn option"

record 's world =
  browser :: 's
  stdin :: "string list"
  events :: "event list"

type_synonym ('s, 'a) prog = "'s world \<Rightarrow> (exn + 'a) \<times> 's world"

definition emit :: "event \<Rightarrow> 's world \<Rightarrow> 's world" where
  "emit e w = w\<lparr>events := events w @ [e]\<rparr>"

definition call :: "'s env \<Rightarrow> webcall \<Rightarrow> ('s, string) prog" where
  "call env c w =
     (case respond env (browser w) c of
        (r, b) \<Rightarrow> (r, emit (Call c) (w\<lparr>browser := b\<rparr>)))"

text \<open>Sequencing: an exception of the first part ends the whole.\<close>

definition then_do :: "('s, 'a) prog \<Rightarrow> ('a \<Rightarrow> ('s, 'b) prog) \<Rightarrow> ('s, 'b) prog" where
  "then_do m f w = (case m w of (Inl e, w') \<Rightarrow> (Inl e, w') | (Inr x, w') \<Rightarrow> f x w')"

definition done_with :: "'a \<Rightarrow> ('s, 'a) prog" where
  "done_with x w = (Inr x, w)"

section \<open>\<^verbatim>\<open>navigate_to_city\<close> (lines 63 to 95)\<close>

definition REDFIN :: string where
  "REDFIN = ''https://www.redfin.com''"

definition SEARCH_BOX :: string where
  "SEARCH_BOX = ''search-box-input''"

text \<open>\<^verbatim>\<open>url.rstrip('/')\<close>.\<close>

definition rstrip_slash :: "string \<Rightarrow> string" where
  "rstrip_slash url = rev (dropWhile (\<lambda>c. c = CHR ''/'') (rev url))"

text \<open>The query typed one character at a time, with a sleep after each.\<close>

fun type_query :: "'s env \<Rightarrow> string \<Rightarrow> ('s, unit) prog" where
  "type_query env [] w = (Inr (), w)"
| "type_query env (char # rest) w =
     (case call env (SendKeys [char]) w of
        (Inl e, w') \<Rightarrow> (Inl e, w')
      | (Inr _, w') \<Rightarrow> type_query env rest (emit Sleep w'))"

text \<open>The body of the \<^verbatim>\<open>try\<close>: one attempt.\<close>

definition attempt :: "'s env \<Rightarrow> string \<Rightarrow> string \<Rightarrow> ('s, unit) prog" where
  "attempt env city state =
     then_do (call env (Get REDFIN)) (\<lambda>_.
     then_do (call env (WaitClickable SEARCH_BOX)) (\<lambda>_.
     then_do (call env (FindElement SEARCH_BOX)) (\<lambda>_.
     then_do (call env Clear) (\<lambda>_.
     then_do (type_query env (city @ '', '' @ state)) (\<lambda>_.
     then_do (call env SendReturn) (\<lambda>_.
     then_do (call env (WaitUrlContains ''/city/'')) (\<lambda>_.
     then_do (call env CurrentUrl) (\<lambda>current_url.
     then_do (call env (Get (rstrip_slash current_url @ ''/housing-market''))) (\<lambda>_.
     done_with ())))))))))"

text \<open>
  The \<^verbatim>\<open>for attempt in range(3)\<close> loop. \<^verbatim>\<open>except (TimeoutError, Exception)\<close> catches
  what derives from \<^verbatim>\<open>Exception\<close>; anything else leaves the function.
\<close>

fun navigate_loop :: "'s env \<Rightarrow> string \<Rightarrow> string \<Rightarrow> nat list \<Rightarrow> ('s, bool) prog" where
  "navigate_loop env city state [] w =
     (Inr False, emit (Log ERROR ''Failed to navigate to the city after 3 attempts.'') w)"
| "navigate_loop env city state (attempt_no # rest) w =
     (case attempt env city state w of
        (Inr _, w') \<Rightarrow> (Inr True, w')
      | (Inl e, w') \<Rightarrow>
          if is_Exception e then
            navigate_loop env city state rest
              (emit Sleep
                (emit (Log WARNING (''Navigation retry '' @ str_nat (attempt_no + 1)
                                     @ '' failed: '' @ exn_str e)) w'))
          else (Inl e, w'))"

definition navigate_to_city :: "'s env \<Rightarrow> string \<Rightarrow> string \<Rightarrow> ('s, bool) prog" where
  "navigate_to_city env city state = navigate_loop env city state [0..<3]"

section \<open>\<^verbatim>\<open>get_median_sale_prices\<close> (lines 97 to 141)\<close>

definition PRICE_XPATH :: string where
  "PRICE_XPATH = ''/html/body/div[1]/div[6]/div[4]/div/div[2]/div/div/''
                 @ ''div[1]/div[6]/div/div[1]/div[2]/div[1]/div[2]''"

definition navigation_error :: "string \<Rightarrow> string \<Rightarrow> exn" where
  "navigation_error city state =
     Exn ValueError (''Could not navigate to '' @ city @ '', '' @ state
                     @ '' housing market page.'')"

text \<open>A value computed without the browser, or the exception it raises.\<close>

definition lift_result :: "exn + 'a \<Rightarrow> ('s, 'a) prog" where
  "lift_result r w = (r, w)"

definition logger_log :: "log_level \<Rightarrow> string \<Rightarrow> ('s, unit) prog" where
  "logger_log level msg w = (Inr (), emit (Log level msg) w)"

text \<open>The body of the \<^verbatim>\<open>try\<close>.\<close>

definition scrape_body :: "'s env \<Rightarrow> string \<Rightarrow> string \<Rightarrow> ('s, pydict) prog" where
  "scrape_body env state city =
     then_do (navigate_to_city env city state) (\<lambda>navigated.
     if \<not> navigated then lift_result (Inl (navigation_error city state))
     else
       then_do (call env (WaitPresence PRICE_XPATH)) (\<lambda>_.
       then_do (call env ElementText) (\<lambda>text.
       then_do (logger_log INFO (''Found current price: '' @ py_strip text)) (\<lambda>_.
       then_do (lift_result (parse_price (py_strip text))) (\<lambda>current_price.
       lift_result (synthetic_series (clock env) current_price (random_uniform env)))))))"

text \<open>
  The two handlers: both log and raise again; what does not derive from
  \<^verbatim>\<open>Exception\<close> passes through unlogged.
\<close>

definition get_median_sale_prices :: "'s env \<Rightarrow> string \<Rightarrow> string \<Rightarrow> ('s, pydict) prog" where
  "get_median_sale_prices env state city w =
     (case scrape_body env state city w of
        (Inr prices, w') \<Rightarrow> (Inr prices, w')
      | (Inl e, w') \<Rightarrow>
          if is_ValueError e then
            (Inl e, emit (Log ERROR (''ValueError in get_median_sale_prices: '' @ exn_str e)) w')
          else if is_Exception e then
            (Inl e, emit (Log ERROR (''Error in get_median_sale_prices: '' @ exn_str e)) w')
          else (Inl e, w'))"

section \<open>\<^verbatim>\<open>main\<close> and the destructor (lines 143 to 180)\<close>

text \<open>\<^verbatim>\<open>input(prompt)\<close>: the next line of standard input, \<open>EOFError\<close> when there is none.\<close>

definition input :: "string \<Rightarrow> ('s, string) prog" where
  "input prompt w =
     (case stdin w of
        [] \<Rightarrow> (Inl (Exn EOFError ''EOF when reading a line''), emit (Input prompt) w)
      | line # rest \<Rightarrow> (Inr line, emit (Input prompt) (w\<lparr>stdin := rest\<rparr>)))"

definition print :: "string \<Rightarrow> ('s, unit) prog" where
  "print line w = (Inr (), emit (Print line) w)"

definition RESULT_FILE :: string where
  "RESULT_FILE = ''median_prices.json''"

text \<open>The loop over \<^verbatim>\<open>sorted(prices.items())\<close>: the keys are distinct, so the order is by key.\<close>

definition print_prices :: "pydict \<Rightarrow> ('s, unit) prog" where
  "print_prices prices w =
     (Inr (), w\<lparr>events := events w @ map (\<lambda>(k, v). PrintPrice k v) (sort_key fst prices)\<rparr>)"

text \<open>The \<^verbatim>\<open>with open(...) as f: json.dump(prices, f, indent=2)\<close> block.\<close>

definition write_result :: "'s env \<Rightarrow> pydict \<Rightarrow> ('s, unit) prog" where
  "write_result env prices w =
     (case open_error env of
        Some e \<Rightarrow> (Inl e, emit (OpenForWrite RESULT_FILE) w)
      | None \<Rightarrow>
          (Inr (), emit CloseFile
                     (emit (JsonDump prices 2) (emit (OpenForWrite RESULT_FILE) w))))"

text \<open>The body of the \<^verbatim>\<open>try\<close> of \<^verbatim>\<open>main\<close>.\<close>

definition main_body :: "'s env \<Rightarrow> ('s, unit) prog" where
  "main_body env =
     then_do (input ''state: '') (\<lambda>state.
     then_do (input ''city: '') (\<lambda>city.
     then_do (get_median_sale_prices env state city) (\<lambda>prices.
     then_do (print ([CHR 0x0A] @ ''Median Sale Prices for '' @ city @ '', '' @ state @ '':'')) (\<lambda>_.
     then_do (print_prices prices) (\<lambda>_.
     then_do (write_result env prices) (\<lambda>_.
     print ([CHR 0x0A] @ ''Results saved to '' @ py_repr RESULT_FILE)))))))"

text \<open>
  The \<^verbatim>\<open>finally\<close> block: \<^verbatim>\<open>scraper.driver.quit()\<close>, an exception that derives from
  \<^verbatim>\<open>Exception\<close> being swallowed. The driver object is always there after a successful
  setup, and nothing sets \<^verbatim>\<open>scraper.driver\<close> back to \<^verbatim>\<open>None\<close>.
\<close>

definition quit_driver :: "'s env \<Rightarrow> ('s, unit) prog" where
  "quit_driver env w =
     (case call env Quit w of
        (Inr _, w') \<Rightarrow> (Inr (), w')
      | (Inl e, w') \<Rightarrow> if is_Exception e then (Inr (), w') else (Inl e, w'))"

text \<open>
  \<^verbatim>\<open>main\<close> after \<^verbatim>\<open>RedfinScraper()\<close> has returned: the body, the handler
  \<^verbatim>\<open>except (ValueError, Exception)\<close>, and the \<^verbatim>\<open>finally\<close> block, which runs on every
  path; an exception that the handler does not catch is raised again after it, unless the
  \<^verbatim>\<open>finally\<close> block raises one itself.
\<close>

definition main :: "'s env \<Rightarrow> ('s, unit) prog" where
  "main env w =
     (case main_body env w of
        (Inr _, w1) \<Rightarrow> quit_driver env w1
      | (Inl e, w1) \<Rightarrow>
          if is_Exception e then
            quit_driver env (emit (Print (''Error in main: '' @ exn_str e)) w1)
          else
            (case quit_driver env w1 of
               (Inr _, w2) \<Rightarrow> (Inl e, w2)
             | (Inl e', w2) \<Rightarrow> (Inl e', w2)))"

text \<open>
  \<^verbatim>\<open>__del__\<close>: \<^verbatim>\<open>self.driver\<close> is not \<^verbatim>\<open>None\<close>, so the driver is quit (again) and the
  outcome logged. Nothing leaves a destructor.
\<close>

definition scraper_del :: "'s env \<Rightarrow> 's world \<Rightarrow> 's world" where
  "scraper_del env w =
     (case call env Quit w of
        (Inr _, w') \<Rightarrow> emit (Log INFO ''Browser closed successfully in destructor.'') w'
      | (Inl e, w') \<Rightarrow>
          if is_Exception e
          then emit (Log ERROR (''Error closing browser in destructor: '' @ exn_str e)) w'
          else w')"

text \<open>
  A run of the program once the session is set up: \<^verbatim>\<open>main\<close>, then the destructor of the
  scraper, which CPython runs when the local variable \<^verbatim>\<open>scraper\<close> goes away at the
  return of \<^verbatim>\<open>main\<close>.
\<close>

definition run :: "'s env \<Rightarrow> 's world \<Rightarrow> (exn + unit) \<times> 's world" where
  "run env w = (case main env w of (r, w') \<Rightarrow> (r, scraper_del env w'))"

text \<open>Counting in a trace: attempts (loads of the home page), quits, steps of the file write.\<close>

definition attempts :: "event list \<Rightarrow> nat" where
  "attempts evs = length (filter (\<lambda>e. e = Call (Get REDFIN)) evs)"

definition quits :: "event list \<Rightarrow> nat" where
  "quits evs = length (filter (\<lambda>e. e = Call Quit) evs)"

fun is_file_event :: "event \<Rightarrow> bool" where
  "is_file_event (OpenForWrite path) = True"
| "is_file_event (JsonDump prices indent) = True"
| "is_file_event CloseFile = True"
| "is_file_event e = False"

definition file_events :: "event list \<Rightarrow> event list" where
  "file_events evs = filter is_file_event evs"

text \<open>
  What a part of the program can do, for any starting world: add only events with a
  property, raise only exceptions with a property, never return normally, and add a
  fixed number of attempts.
\<close>

definition appends :: "(event \<Rightarrow> bool) \<Rightarrow> 's world \<Rightarrow> 's world \<Rightarrow> bool" where
  "appends P w w' = (\<exists>evs. events w' = events w @ evs \<and> list_all P evs)"

definition emits_only :: "(event \<Rightarrow> bool) \<Rightarrow> ('s, 'a) prog \<Rightarrow> bool" where
  "emits_only P m = (\<forall>w. appends P w (snd (m w)))"

definition raises_only :: "(exn \<Rightarrow> bool) \<Rightarrow> ('s, 'a) prog \<Rightarrow> bool" where
  "raises_only Q m = (\<forall>w e w'. m w = (Inl e, w') \<longrightarrow> Q e)"

definition never_returns :: "('s, 'a) prog \<Rightarrow> bool" where
  "never_returns m = (\<forall>w. \<exists>e w'. m w = (Inl e, w'))"

definition adds_attempts :: "nat \<Rightarrow> ('s, 'a) prog \<Rightarrow> bool" where
  "adds_attempts n m = (\<forall>w. attempts (events (snd (m w))) = attempts (events w) + n)"

fun browsing :: "event \<Rightarrow> bool" where
  "browsing (Call c) = (c \<noteq> Quit)"
| "browsing Sleep = True"
| "browsing (Log level msg) = True"
| "browsing e = False"

section \<open>Example inputs\<close>

text \<open>A run on 31 January 2025, and the keys of its 36 iterations in order.\<close>

definition jan31 :: datetime where
  "jan31 = \<lparr>dt_year = 2025, dt_month = 1, dt_day = 31, dt_time = 0\<rparr>"

definition keys_jan31 :: "string list" where
  "keys_jan31 = [''2025-01'', ''2025-01'', ''2024-12'', ''2024-11'', ''2024-10'', ''2024-09'',
      ''2024-08'', ''2024-07'', ''2024-06'', ''2024-05'', ''2024-04'',
      ''2024-03'', ''2024-02'', ''2024-01'', ''2023-12'', ''2023-11'',
      ''2023-10'', ''2023-09'', ''2023-08'', ''2023-07'', ''2023-06'',
      ''2023-05'', ''2023-04'', ''2023-03'', ''2023-02'', ''2023-01'',
      ''2022-12'', ''2022-11'', ''2022-10'', ''2022-09'', ''2022-08'',
      ''2022-07'', ''2022-06'', ''2022-05'', ''2022-04'', ''2022-03'']"

text \<open>The float that \<^verbatim>\<open>float("100.3")\<close> is.\<close>

definition price_100_3 :: rat where
  "price_100_3 = 7057985041019699 / 70368744177664"

text \<open>
  Two fakes of the browser, whose state counts the calls received: one on which every
  awaited condition times out, and one on which every call succeeds and the price
  element reads \<^verbatim>\<open>$450K\<close>.
\<close>

fun stuck_browser :: "nat \<Rightarrow> webcall \<Rightarrow> (exn + string) \<times> nat" where
  "stuck_browser n (WaitClickable i) = (Inl (Exn TimeoutException ''Message: ''), Suc n)"
| "stuck_browser n (WaitUrlContains u) = (Inl (Exn TimeoutException ''Message: ''), Suc n)"
| "stuck_browser n (WaitPresence x) = (Inl (Exn TimeoutException ''Message: ''), Suc n)"
| "stuck_browser n c = (Inr [], Suc n)"

fun working_browser :: "nat \<Rightarrow> webcall \<Rightarrow> (exn + string) \<times> nat" where
  "working_browser n CurrentUrl = (Inr ''https://www.redfin.com/city/30818/TX/Austin/'', Suc n)"
| "working_browser n ElementText = (Inr ''$450K'', Suc n)"
| "working_browser n c = (Inr [], Suc n)"

definition stuck_env :: "nat env" where
  "stuck_env = \<lparr>respond = stuck_browser, clock = jan31, random_uniform = (\<lambda>a b i. b),
                 open_error = None\<rparr>"

definition working_env :: "nat env" where
  "working_env = \<lparr>respond = working_browser, clock = jan31, random_uniform = (\<lambda>a b i. b),
                   open_error = None\<rparr>"

definition start :: "nat world" where
  "start = \<lparr>browser = 0, stdin = [''TX'', ''Austin''], events = []\<rparr>"

section \<open>Auxiliary lemmas\<close>

subsection \<open>Rounding to binary64\<close>

lemma rnd_even_of_int: "rnd_even (of_int m) = m"
  by (simp add: rnd_even_def)

lemma ilog2_bounds:
  assumes "0 < x"
  shows "2 powi (ilog2 x) \<le> x \<and> x < 2 powi (ilog2 x + 1)"
proof -
  obtain p q where pq: "quotient_of x = (p, q)" by (cases "quotient_of x")
  have q: "0 < q" using pq by (rule quotient_of_denom_pos)
  have x: "x = of_int p / of_int q" using pq by (rule quotient_of_div)
  have p: "0 < p" using assms q x by (simp add: zero_less_divide_iff)
  define a where "a = floorlog 2 (nat p)"
  define b where "b = floorlog 2 (nat q)"
  define P :: rat where "P = of_int p"
  define Q :: rat where "Q = of_int q"
  have pa: "2 ^ (a - 1) \<le> nat p \<and> nat p < 2 ^ a"
    unfolding a_def using floorlog_bounds [of "nat p" 2] p by simp
  have qb: "2 ^ (b - 1) \<le> nat q \<and> nat q < 2 ^ b"
    unfolding b_def using floorlog_bounds [of "nat q" 2] q by simp
  have a1: "1 \<le> a" using pa p by (cases a) auto
  have b1: "1 \<le> b" using qb q by (cases b) auto
  have Pnat: "P = of_nat (nat p)" using p by (simp add: P_def)
  have Qnat: "Q = of_nat (nat q)" using q by (simp add: Q_def)
  have P1: "(2::rat) ^ (a - 1) \<le> P"
    unfolding Pnat using pa by (metis of_nat_le_iff of_nat_numeral of_nat_power)
  have P2: "P < (2::rat) ^ a"
    unfolding Pnat using pa by (metis of_nat_less_iff of_nat_numeral of_nat_power)
  have Q1: "(2::rat) ^ (b - 1) \<le> Q"
    unfolding Qnat using qb by (metis of_nat_le_iff of_nat_numeral of_nat_power)
  have Q2: "Q < (2::rat) ^ b"
    unfolding Qnat using qb by (metis of_nat_less_iff of_nat_numeral of_nat_power)
  have Ppos: "0 < P" using p by (simp add: P_def)
  have Qpos: "0 < Q" using q by (simp add: Q_def)
  have xPQ: "x = P / Q" using x by (simp add: P_def Q_def)
  define k where "k = int a - int b"
  have up: "x < 2 powi (k + 1)"
  proof -
    have "P / Q < 2 ^ a / 2 ^ (b - 1)"
      using P2 Q1 Ppos by (intro frac_less) auto
    also have "\<dots> = 2 powi (int a - int (b - 1))"
      by (simp add: power_int_diff)
    also have "int a - int (b - 1) = k + 1" using b1 by (simp add: k_def)
    finally show ?thesis by (simp add: xPQ)
  qed
  have lo: "2 powi (k - 1) < x"
  proof -
    have "k - 1 = int (a - 1) - int b"
      using a1 by (simp add: k_def of_nat_diff)
    then have "2 powi (k - 1) = (2::rat) powi (int (a - 1) - int b)"
      by simp
    also have "\<dots> = 2 ^ (a - 1) / 2 ^ b" by (simp add: power_int_diff)
    also have "\<dots> < P / Q"
      using P1 Q2 Qpos by (intro frac_less2) auto
    finally show ?thesis by (simp add: xPQ)
  qed
  have il: "ilog2 x = (if 2 powi k \<le> x then k else k - 1)"
    by (simp add: ilog2_def pq k_def a_def b_def)
  show ?thesis
  proof (cases "2 powi k \<le> x")
    case True
    then show ?thesis using up il by simp
  next
    case False
    then show ?thesis using lo il by simp
  qed
qed

lemma powi2_less_cancel: "(2::rat) powi m < 2 powi n \<Longrightarrow> m < n"
  using power_int_increasing [of n m "2::rat"] by (cases "m < n") auto

lemma ilog2_unique:
  assumes "2 powi k \<le> x" "x < 2 powi (k + 1)"
  shows "ilog2 x = k"
proof -
  have pos: "0 < x" using assms(1) by (rule less_le_trans [OF zero_less_power_int, rotated]) simp
  from ilog2_bounds [OF pos] have b: "2 powi (ilog2 x) \<le> x" "x < 2 powi (ilog2 x + 1)" by auto
  have "2 powi k < (2::rat) powi (ilog2 x + 1)" using assms(1) b(2) by simp
  then have "k < ilog2 x + 1" by (rule powi2_less_cancel)
  moreover have "2 powi (ilog2 x) < (2::rat) powi (k + 1)" using assms(2) b(1) by simp
  then have "ilog2 x < k + 1" by (rule powi2_less_cancel)
  ultimately show ?thesis by simp
qed

lemma rnd_even_floor: "\<lfloor>x\<rfloor> \<le> rnd_even x \<and> rnd_even x \<le> \<lfloor>x\<rfloor> + 1"
  by (simp add: rnd_even_def Let_def)

lemma rnd_even_same_floor:
  "\<lfloor>x\<rfloor> = \<lfloor>y\<rfloor> \<Longrightarrow> x \<le> y \<Longrightarrow> rnd_even x \<le> rnd_even y"
  by (simp add: rnd_even_def Let_def)

lemma rnd_even_mono:
  assumes "x \<le> y"
  shows "rnd_even x \<le> rnd_even y"
proof (cases "\<lfloor>x\<rfloor> = \<lfloor>y\<rfloor>")
  case True
  then show ?thesis using assms by (rule rnd_even_same_floor)
next
  case False
  with assms have lt: "\<lfloor>x\<rfloor> < \<lfloor>y\<rfloor>" using floor_mono [of x y] by linarith
  show ?thesis using rnd_even_floor [of x] rnd_even_floor [of y] lt by linarith
qed

lemma rnd_even_minus: "rnd_even (- x) = - rnd_even x"
proof (cases "x = of_int \<lfloor>x\<rfloor>")
  case True
  then obtain m where "x = of_int m" ..
  then show ?thesis using rnd_even_of_int [of m] rnd_even_of_int [of "- m"] by simp
next
  case False
  have lo: "of_int \<lfloor>x\<rfloor> < x" using False of_int_floor_le [of x] by linarith
  have hi: "x < of_int \<lfloor>x\<rfloor> + 1" by linarith
  have c: "\<lfloor>- x\<rfloor> = - \<lfloor>x\<rfloor> - 1"
    by (rule floor_unique) (use lo hi in simp_all)
  define f where "f = \<lfloor>x\<rfloor>"
  define d where "d = x - of_int f"
  have d': "- x - of_int (- f - 1) = 1 - d" by (simp add: d_def)
  have ev: "even (- f - 1) \<longleftrightarrow> odd f" by simp
  have r1: "rnd_even x = (if d < 1 / 2 then f else if 1 / 2 < d then f + 1
      else if even f then f else f + 1)"
    by (simp add: rnd_even_def Let_def f_def d_def)
  have r2: "rnd_even (- x) = (if 1 - d < 1 / 2 then - f - 1 else if 1 / 2 < 1 - d then - f
      else if odd f then - f - 1 else - f)"
    unfolding rnd_even_def Let_def c f_def [symmetric] d' ev by simp
  show ?thesis unfolding r1 r2 by (cases "d < 1 / 2"; cases "1 / 2 < d"; simp)
qed

lemma ulp_exp_eq:
  assumes "2 powi k \<le> \<bar>x\<bar>" "\<bar>x\<bar> < 2 powi (k + 1)"
  shows "ulp_exp x = max (k - 52) (- 1074)"
  using ilog2_unique [OF assms] by (simp add: ulp_exp_def)

lemma fl64_rat_eval:
  assumes "2 powi k \<le> \<bar>x\<bar>" "\<bar>x\<bar> < 2 powi (k + 1)" "e = max (k - 52) (- 1074)"
  shows "fl64_rat x = of_int (rnd_even (x / 2 powi e)) * 2 powi e"
proof -
  have "0 < \<bar>x\<bar>" using assms(1) by (rule less_le_trans [OF zero_less_power_int, rotated]) simp
  then have "x \<noteq> 0" by simp
  then show ?thesis using ulp_exp_eq [OF assms(1,2)] assms(3) by (simp add: fl64_rat_def)
qed

lemma ulp_exp_minus: "ulp_exp (- x) = ulp_exp x"
  by (simp add: ulp_exp_def)

lemma fl64_rat_minus: "fl64_rat (- x) = - fl64_rat x"
  by (simp add: fl64_rat_def ulp_exp_minus rnd_even_minus)

lemma rnd_even_nonneg: "0 \<le> x \<Longrightarrow> 0 \<le> rnd_even x"
  using rnd_even_mono [of 0 x] rnd_even_of_int [of 0] by simp

lemma fl64_rat_nonneg: "0 \<le> x \<Longrightarrow> 0 \<le> fl64_rat x"
  by (simp add: fl64_rat_def rnd_even_nonneg)

lemma ilog2_mono:
  assumes "0 < x" "x \<le> y"
  shows "ilog2 x \<le> ilog2 y"
proof -
  have "0 < y" using assms by simp
  from ilog2_bounds [OF assms(1)] ilog2_bounds [OF this]
  have "2 powi (ilog2 x) < (2::rat) powi (ilog2 y + 1)" using assms(2) by linarith
  then have "ilog2 x < ilog2 y + 1" by (rule powi2_less_cancel)
  then show ?thesis by simp
qed

lemma ulp_exp_mono: "0 < x \<Longrightarrow> x \<le> y \<Longrightarrow> ulp_exp x \<le> ulp_exp y"
  using ilog2_mono [of x y] by (simp add: ulp_exp_def)

lemma rnd_even_ge: "of_int m \<le> x \<Longrightarrow> m \<le> rnd_even x"
  using rnd_even_mono [of "of_int m" x] by (simp add: rnd_even_of_int)

lemma rnd_even_le: "x \<le> of_int m \<Longrightarrow> rnd_even x \<le> m"
  using rnd_even_mono [of x "of_int m"] by (simp add: rnd_even_of_int)

lemma fl64_rat_pos_upper:
  assumes "0 < x"
  shows "fl64_rat x \<le> 2 powi (ulp_exp x + 53)"
proof -
  define e where "e = ulp_exp x"
  have e: "ilog2 x - 52 \<le> e" using assms by (simp add: e_def ulp_exp_def)
  have "x < 2 powi (ilog2 x + 1)" using ilog2_bounds [OF assms] by simp
  also have "\<dots> \<le> 2 powi (e + 53)" using e by (intro power_int_increasing) auto
  also have "\<dots> = 2 powi e * 2 ^ 53" by (simp add: power_int_add)
  finally have "x / 2 powi e \<le> of_int (2 ^ 53)"
    by (simp add: divide_le_eq mult.commute)
  then have "rnd_even (x / 2 powi e) \<le> 2 ^ 53" by (rule rnd_even_le)
  then have "(of_int (rnd_even (x / 2 powi e)) :: rat) \<le> of_int (2 ^ 53)"
    by (simp only: of_int_le_iff)
  then have "of_int (rnd_even (x / 2 powi e)) * 2 powi e \<le> (2 ^ 53 :: rat) * 2 powi e"
    by (intro mult_right_mono) auto
  also have "\<dots> = 2 powi (e + 53)" by (simp add: power_int_add)
  finally show ?thesis using assms by (simp add: fl64_rat_def e_def)
qed

lemma fl64_rat_pos_lower:
  assumes "0 < x" "- 1074 < ulp_exp x"
  shows "2 powi (ulp_exp x + 52) \<le> fl64_rat x"
proof -
  define e where "e = ulp_exp x"
  have e: "e = ilog2 x - 52" using assms by (simp add: e_def ulp_exp_def)
  have "2 powi e * 2 ^ 52 = (2::rat) powi (e + 52)" by (simp add: power_int_add)
  also have "\<dots> = 2 powi (ilog2 x)" by (simp add: e)
  also have "\<dots> \<le> x" using ilog2_bounds [OF assms(1)] by simp
  finally have "of_int (2 ^ 52) \<le> x / 2 powi e"
    by (simp add: le_divide_eq mult.commute)
  then have "2 ^ 52 \<le> rnd_even (x / 2 powi e)" by (rule rnd_even_ge)
  then have "(of_int (2 ^ 52) :: rat) \<le> of_int (rnd_even (x / 2 powi e))"
    by (simp only: of_int_le_iff)
  then have m: "(2 ^ 52 :: rat) * 2 powi e \<le> of_int (rnd_even (x / 2 powi e)) * 2 powi e"
    by (intro mult_right_mono) auto
  have "(2::rat) powi (e + 52) = 2 ^ 52 * 2 powi e" by (simp add: power_int_add)
  also note m
  finally show ?thesis using assms by (simp add: fl64_rat_def e_def)
qed

lemma fl64_rat_mono_pos:
  assumes "0 < x" "x \<le> y"
  shows "fl64_rat x \<le> fl64_rat y"
proof (cases "ulp_exp x = ulp_exp y")
  case True
  have y: "0 < y" using assms by simp
  have "x / 2 powi (ulp_exp y) \<le> y / 2 powi (ulp_exp y)"
    using assms by (simp add: divide_right_mono)
  then have "rnd_even (x / 2 powi (ulp_exp y)) \<le> rnd_even (y / 2 powi (ulp_exp y))"
    by (rule rnd_even_mono)
  then have "(of_int (rnd_even (x / 2 powi (ulp_exp y))) :: rat)
      \<le> of_int (rnd_even (y / 2 powi (ulp_exp y)))"
    by (simp only: of_int_le_iff)
  then have "of_int (rnd_even (x / 2 powi (ulp_exp y))) * 2 powi (ulp_exp y)
      \<le> of_int (rnd_even (y / 2 powi (ulp_exp y))) * (2::rat) powi (ulp_exp y)"
    by (intro mult_right_mono) auto
  then show ?thesis using assms y True by (simp add: fl64_rat_def)
next
  case False
  have y: "0 < y" using assms by simp
  have lt: "ulp_exp x < ulp_exp y" using ulp_exp_mono [OF assms] False by simp
  moreover have "- 1074 \<le> ulp_exp x" by (simp add: ulp_exp_def)
  ultimately have "- 1074 < ulp_exp y" by simp
  from fl64_rat_pos_lower [OF y this] have l: "2 powi (ulp_exp y + 52) \<le> fl64_rat y" .
  have "fl64_rat x \<le> 2 powi (ulp_exp x + 53)" using assms(1) by (rule fl64_rat_pos_upper)
  also have "\<dots> \<le> 2 powi (ulp_exp y + 52)" using lt by (intro power_int_increasing) auto
  finally show ?thesis using l by simp
qed

lemma fl64_rat_mono:
  assumes "x \<le> y"
  shows "fl64_rat x \<le> fl64_rat y"
proof -
  consider "0 < x" | "x \<le> 0" "0 \<le> y" | "y < 0" by linarith
  then show ?thesis
  proof cases
    case 1
    then show ?thesis using assms by (rule fl64_rat_mono_pos)
  next
    case 2
    have "0 \<le> fl64_rat (- x)" using 2 by (intro fl64_rat_nonneg) simp
    then have "fl64_rat x \<le> 0" by (simp add: fl64_rat_minus)
    moreover have "0 \<le> fl64_rat y" using 2 by (intro fl64_rat_nonneg)
    ultimately show ?thesis by simp
  next
    case 3
    have "fl64_rat (- y) \<le> fl64_rat (- x)" using 3 assms by (intro fl64_rat_mono_pos) auto
    then show ?thesis by (simp add: fl64_rat_minus)
  qed
qed

lemma fl64_not_NaN: "fl64 x \<noteq> NaN"
  by (simp add: fl64_def Let_def)

lemma fle_fl64_mono: "x \<le> y \<Longrightarrow> fle (fl64 x) (fl64 y)"
  using fl64_rat_mono [of x y] by (auto simp: fl64_def Let_def)

lemma fl64_rat_of_int:
  assumes "\<bar>n\<bar> < 2 ^ 53"
  shows "fl64_rat (of_int n) = of_int n"
proof (cases "n = 0")
  case True
  then show ?thesis by (simp add: fl64_rat_def)
next
  case False
  define x :: rat where "x = of_int n"
  have ax: "\<bar>x\<bar> = of_int \<bar>n\<bar>" by (simp add: x_def)
  have pos: "0 < \<bar>x\<bar>" using False by (simp add: x_def)
  define k where "k = ilog2 \<bar>x\<bar>"
  have b: "2 powi k \<le> \<bar>x\<bar>" "\<bar>x\<bar> < 2 powi (k + 1)"
    using ilog2_bounds [OF pos] by (simp_all add: k_def)
  have "\<bar>x\<bar> < 2 powi 53" unfolding ax using assms
    by (metis of_int_less_iff of_int_numeral of_int_power power_int_numeral)
  with b(1) have "2 powi k < (2::rat) powi 53" by simp
  then have k53: "k < 53" by (rule powi2_less_cancel)
  have "1 \<le> \<bar>n\<bar>" using False by simp
  then have "(1::rat) \<le> \<bar>x\<bar>" unfolding ax by (metis of_int_1 of_int_le_iff)
  with b(2) have "2 powi 0 < (2::rat) powi (k + 1)" by simp
  then have k0: "0 \<le> k" using powi2_less_cancel [of 0 "k + 1"] by simp
  define e where "e = k - 52"
  have e: "e = max (k - 52) (- 1074)" using k0 by (simp add: e_def)
  have "x / 2 powi e = x * 2 powi (- e)" by (simp add: power_int_minus field_simps)
  also have "\<dots> = x * 2 ^ nat (- e)" using k53 by (simp add: power_int_def e_def)
  also have "\<dots> = of_int (n * 2 ^ nat (- e))" by (simp add: x_def)
  finally have "rnd_even (x / 2 powi e) = n * 2 ^ nat (- e)"
    by (simp only: rnd_even_of_int)
  then have "of_int (rnd_even (x / 2 powi e)) * 2 powi e
      = x * (2 ^ nat (- e) * 2 powi e)" by (simp add: x_def)
  also have "(2::rat) ^ nat (- e) * 2 powi e = 1"
    using k53 by (simp add: power_int_def e_def flip: power_mult_distrib)
  finally show ?thesis using fl64_rat_eval [OF b e] by (simp add: x_def)
qed

lemma fl64_of_int: "\<bar>n\<bar> < 2 ^ 53 \<Longrightarrow> fl64 (of_int n) = Finite (of_int n)"
proof -
  assume a: "\<bar>n\<bar> < 2 ^ 53"
  then have "\<bar>n\<bar> < 2 ^ 1024" by simp
  then have "(of_int \<bar>n\<bar> :: rat) < of_int (2 ^ 1024)" by (simp only: of_int_less_iff)
  then have "\<bar>of_int n :: rat\<bar> < 2 ^ 1024" by simp
  then show ?thesis using fl64_rat_of_int [OF a] by (auto simp: fl64_def Let_def)
qed

lemma fl64_numeral: "(numeral w :: int) < 2 ^ 53 \<Longrightarrow> fl64 (numeral w) = Finite (numeral w)"
  using fl64_of_int [of "numeral w"] by simp

lemma fl64_0: "fl64 0 = Finite 0" using fl64_of_int [of 0] by simp
lemma fl64_1: "fl64 1 = Finite 1" using fl64_of_int [of 1] by simp

lemma rnd_even_frac:
  assumes "0 < b"
  shows "rnd_even (of_int a / of_int b) =
     (if 2 * (a mod b) < b then a div b
      else if b < 2 * (a mod b) then a div b + 1
      else if even (a div b) then a div b else a div b + 1)"
proof -
  have f: "\<lfloor>(of_int a / of_int b :: rat)\<rfloor> = a div b" by (simp add: floor_divide_of_int_eq)
  have B: "(0::rat) < of_int b" using assms by simp
  have "(of_int a :: rat) = of_int b * of_int (a div b) + of_int (a mod b)"
    by (metis mult_div_mod_eq of_int_add of_int_mult)
  then have "(of_int a / of_int b :: rat) = of_int (a div b) + of_int (a mod b) / of_int b"
    using B by (simp add: field_simps)
  then have d: "(of_int a / of_int b :: rat) - of_int (a div b) = of_int (a mod b) / of_int b"
    by simp
  have l: "(of_int (a mod b) / of_int b :: rat) < 1 / 2 \<longleftrightarrow> 2 * (a mod b) < b"
  proof -
    have "(of_int (a mod b) / of_int b :: rat) < 1 / 2 \<longleftrightarrow>
        (of_int (2 * (a mod b)) :: rat) < of_int b"
      using B by (simp add: field_simps)
    then show ?thesis by (simp only: of_int_less_iff)
  qed
  have g: "(1 / 2 :: rat) < of_int (a mod b) / of_int b \<longleftrightarrow> b < 2 * (a mod b)"
  proof -
    have "(1 / 2 :: rat) < of_int (a mod b) / of_int b \<longleftrightarrow>
        (of_int b :: rat) < of_int (2 * (a mod b))"
      using B by (simp add: field_simps)
    then show ?thesis by (simp only: of_int_less_iff)
  qed
  show ?thesis unfolding rnd_even_def Let_def f d l g ..
qed

lemma rnd_even_numeral_frac:
  "rnd_even (numeral a / numeral b) =
     (if 2 * (numeral a mod numeral b) < (numeral b :: int) then numeral a div numeral b
      else if (numeral b :: int) < 2 * (numeral a mod numeral b) then numeral a div numeral b + 1
      else if even (numeral a div numeral b :: int) then numeral a div numeral b
      else numeral a div numeral b + 1)"
  using rnd_even_frac [of "numeral b" "numeral a"] by simp

subsection \<open>Evaluating the parser\<close>

lemmas parse_defs = parse_price_def clean_price_def remove_char_def py_float_def py_strip_def
  float_strip_def is_float_space_def is_space_def parse_sign_body_def parse_decimal_def parse_exponent_def is_digit_def
  digits_val_def digit_val_def lower_char_def f1000_def Let_def

subsection \<open>The loop of the generator\<close>

lemma spec_perturbation_eq: "spec_perturbation uniform i = uniform fm002 f002 i"
  by (simp add: spec_perturbation_def fm002_def f002_def)

lemma series_loop_spec:
  assumes "\<forall>i \<in> set js. 30 * int i < toordinal now" "toordinal now \<le> MAXORDINAL"
  shows "series_loop now P uniform js md = Inr (foldl (spec_iteration P now uniform) md js)"
  using assms(1)
proof (induction js arbitrary: md)
  case Nil
  show ?case by simp
next
  case (Cons i js)
  have i: "0 < toordinal now - 30 * int i" "toordinal now - 30 * int i \<le> MAXORDINAL"
    using Cons.prems assms(2) by auto
  obtain y m d where o: "ord2ymd (toordinal now - 30 * int i) = (y, m, d)"
    by (cases "ord2ymd (toordinal now - 30 * int i)")
  have s: "datetime_sub_days now (30 * int i) = Inr (spec_candidate_date now i)"
    using i o by (simp add: datetime_sub_days_def spec_candidate_date_def Let_def)
  have "series_loop now P uniform (i # js) md
      = series_loop now P uniform js (spec_iteration P now uniform md i)"
    by (simp add: s Let_def spec_iteration_def spec_perturbed_price_def spec_perturbation_eq)
  also have "\<dots> = Inr (foldl (spec_iteration P now uniform) (spec_iteration P now uniform md i) js)"
    using Cons.prems by (intro Cons.IH) simp
  finally show ?case by simp
qed

lemma series_loop_lookup:
  assumes "series_loop now P uniform js md0 = Inr md"
  shows "map_of md k =
     (case filter (\<lambda>i. date_key now i = Inr k) js of
        [] \<Rightarrow> map_of md0 k
      | _ # _ \<Rightarrow> Some (stored_price P (uniform fm002 f002 (last (filter (\<lambda>i. date_key now i = Inr k) js)))))"
  using assms
proof (induction js arbitrary: md0)
  case Nil
  then show ?case by simp
next
  case (Cons i js)
  from Cons.prems obtain d where d: "datetime_sub_days now (30 * int i) = Inr d"
    by (cases "datetime_sub_days now (30 * int i)") auto
  define md1 where "md1 = AList.update (strftime_Ym d) (stored_price P (uniform fm002 f002 i)) md0"
  have r: "series_loop now P uniform js md1 = Inr md"
    using Cons.prems by (simp add: d Let_def md1_def stored_price_def)
  have dk: "date_key now i = Inr (strftime_Ym d)" by (simp add: date_key_def d)
  note IH = Cons.IH [OF r, unfolded md1_def]
  show ?case
  proof (cases "strftime_Ym d = k")
    case True
    then show ?thesis using IH dk
      by (auto simp: update_conv' split: list.splits)
  next
    case False
    then show ?thesis using IH dk
      by (auto simp: update_conv' split: list.splits)
  qed
qed

lemma filter_upt_last:
  assumes "i < n" "Q i" "\<forall>j. i < j \<and> j < n \<longrightarrow> \<not> Q j"
  shows "filter Q [0..<n] = filter Q [0..<i] @ [i]"
proof -
  have "[0..<n] = [0..<Suc i + (n - Suc i)]" using assms(1) by simp
  also have "\<dots> = [0..<Suc i] @ [Suc i..<Suc i + (n - Suc i)]"
    by (rule upt_add_eq_append) simp
  finally have split: "[0..<n] = [0..<i] @ [i] @ [Suc i..<n]" using assms(1) by simp
  have "filter Q [Suc i..<n] = []" using assms(3) by (auto simp: filter_empty_conv)
  then show ?thesis using assms(2) by (simp add: split)
qed

lemma in_set_update: "(a, b) \<in> set (AList.update k v al) \<Longrightarrow> b = v \<or> (a, b) \<in> set al"
  by (induction al) (auto split: if_splits)

lemma series_loop_values:
  assumes "series_loop now P uniform js md0 = Inr md"
    and "\<forall>v \<in> snd ` set md0. Q v" and "\<forall>i \<in> set js. Q (stored_price P (uniform fm002 f002 i))"
  shows "\<forall>v \<in> snd ` set md. Q v"
  using assms
proof (induction js arbitrary: md0)
  case Nil
  then show ?case by simp
next
  case (Cons i js)
  from Cons.prems(1) obtain d where d: "datetime_sub_days now (30 * int i) = Inr d"
    by (cases "datetime_sub_days now (30 * int i)") auto
  define md1 where "md1 = AList.update (strftime_Ym d) (stored_price P (uniform fm002 f002 i)) md0"
  have r: "series_loop now P uniform js md1 = Inr md"
    using Cons.prems(1) by (simp add: d Let_def md1_def stored_price_def)
  have "\<forall>v \<in> snd ` set md1. Q v"
  proof
    fix v
    assume "v \<in> snd ` set md1"
    then obtain a where "(a, v) \<in> set md1" by auto
    then have "v = stored_price P (uniform fm002 f002 i) \<or> (a, v) \<in> set md0"
      unfolding md1_def by (rule in_set_update)
    then show "Q v"
    proof
      assume "v = stored_price P (uniform fm002 f002 i)"
      then show ?thesis using Cons.prems(3) by simp
    next
      assume "(a, v) \<in> set md0"
      then have "v \<in> snd ` set md0" by force
      then show ?thesis using Cons.prems(2) by blast
    qed
  qed
  moreover have "\<forall>j \<in> set js. Q (stored_price P (uniform fm002 f002 j))" using Cons.prems(3) by simp
  ultimately show ?case by (rule Cons.IH [OF r])
qed

subsection \<open>The float constants of the source\<close>

lemma fl64_eval:
  assumes "2 powi k \<le> \<bar>x\<bar>" "\<bar>x\<bar> < 2 powi (k + 1)" "e = max (k - 52) (- 1074)"
    and "y = of_int (rnd_even (x / 2 powi e)) * 2 powi e" and "\<bar>y\<bar> < 2 ^ 1024"
  shows "fl64 x = Finite y"
proof -
  have "fl64_rat x = y" using fl64_rat_eval [OF assms(1-3)] assms(4) by simp
  then show ?thesis using assms(5) by (auto simp: fl64_def Let_def)
qed

lemma f002_val: "f002 = Finite (5764607523034235 / 288230376151711744)"
  unfolding f002_def
  by (rule fl64_eval [where k = "- 6" and e = "- 58"]) (simp_all add: rnd_even_numeral_frac)

lemma fm002_val: "fm002 = Finite (- (5764607523034235 / 288230376151711744))"
  unfolding fm002_def
  by (rule fl64_eval [where k = "- 6" and e = "- 58"])
    (simp_all add: rnd_even_minus rnd_even_numeral_frac)

lemma f102_val: "f102 = Finite (2296835809958953 / 2251799813685248)"
  unfolding f102_def
  by (rule fl64_eval [where k = 0 and e = "- 52"]) (simp_all add: rnd_even_numeral_frac)

lemma f098_val: "f098 = Finite (2206763817411543 / 2251799813685248)"
  unfolding f098_def
  by (rule fl64_eval [where k = "- 1" and e = "- 53"]) (simp_all add: rnd_even_numeral_frac)

lemma f1_val: "f1 = Finite 1"
  by (simp add: f1_def fl64_1)

lemma one_plus_f002: "fadd f1 f002 = f102"
  unfolding f1_val f002_val f102_val fadd.simps
  by (rule fl64_eval [where k = 0 and e = "- 52"]) (simp_all add: rnd_even_numeral_frac)

lemma one_plus_fm002: "fadd f1 fm002 = f098"
  unfolding f1_val fm002_val f098_val fadd.simps
  by (rule fl64_eval [where k = "- 1" and e = "- 53"]) (simp_all add: rnd_even_numeral_frac)

subsection \<open>Rounding to two decimals is monotone\<close>

lemma fle_PosInf: "fle x PosInf \<longleftrightarrow> x \<noteq> NaN"
  by (cases x) simp_all

lemma fle_NegInf: "fle NegInf x \<longleftrightarrow> x \<noteq> NaN"
  by (cases x) simp_all

lemma fle_Finite_cases:
  "fle (Finite a) x \<Longrightarrow> fle x (Finite b) \<Longrightarrow> \<exists>c. x = Finite c \<and> a \<le> c \<and> c \<le> b"
  by (cases x) simp_all

lemma py_round2_mono:
  assumes "fle x y"
  shows "fle (py_round2 x) (py_round2 y)"
proof (cases x)
  case (Finite a)
  show ?thesis
  proof (cases y)
    case (Finite b)
    have "a \<le> b" using assms \<open>x = Finite a\<close> Finite by simp
    then have "a * 100 \<le> b * 100" by simp
    then have "rnd_even (a * 100) \<le> rnd_even (b * 100)" by (rule rnd_even_mono)
    then have "(of_int (rnd_even (a * 100)) :: rat) \<le> of_int (rnd_even (b * 100))"
      by (simp only: of_int_le_iff)
    then have "(of_int (rnd_even (a * 100)) / 100 :: rat) \<le> of_int (rnd_even (b * 100)) / 100"
      by (simp add: divide_right_mono)
    then show ?thesis unfolding \<open>x = Finite a\<close> Finite py_round2.simps by (rule fle_fl64_mono)
  qed (use assms \<open>x = Finite a\<close> in \<open>simp_all add: fle_PosInf fl64_not_NaN\<close>)
next
  case PosInf
  then show ?thesis using assms by (cases y) simp_all
next
  case NegInf
  then show ?thesis using assms by (cases y) (simp_all add: fle_NegInf fl64_not_NaN)
next
  case NaN
  then show ?thesis using assms by simp
qed

lemma stored_price_band:
  assumes "0 < p" "fle fm002 r" "fle r f002"
  shows "fle (py_round2 (fmul (Finite p) f098)) (stored_price (Finite p) r)
       \<and> fle (stored_price (Finite p) r) (py_round2 (fmul (Finite p) f102))"
proof -
  from assms(2,3) obtain r' where r: "r = Finite r'"
    and lo: "- (5764607523034235 / 288230376151711744) \<le> r'"
    and hi: "r' \<le> 5764607523034235 / 288230376151711744"
    unfolding fm002_val f002_val by (blast dest: fle_Finite_cases)
  have a: "fle f098 (fadd f1 r)"
  proof -
    have "fle (fl64 (1 + - (5764607523034235 / 288230376151711744))) (fl64 (1 + r'))"
      using lo by (intro fle_fl64_mono) simp
    then show ?thesis using one_plus_fm002 by (simp add: f1_val fm002_val r)
  qed
  have b: "fle (fadd f1 r) f102"
  proof -
    have "fle (fl64 (1 + r')) (fl64 (1 + 5764607523034235 / 288230376151711744))"
      using hi by (intro fle_fl64_mono) simp
    then show ?thesis using one_plus_f002 by (simp add: f1_val f002_val r)
  qed
  from a b obtain c where c: "fadd f1 r = Finite c"
    and c0: "2206763817411543 / 2251799813685248 \<le> c"
    and c1: "c \<le> 2296835809958953 / 2251799813685248"
    unfolding f098_val f102_val by (blast dest: fle_Finite_cases)
  have "fle (fl64 (p * (2206763817411543 / 2251799813685248))) (fl64 (p * c))"
    using c0 assms(1) by (intro fle_fl64_mono) simp
  then have l: "fle (fmul (Finite p) f098) (fmul (Finite p) (fadd f1 r))"
    by (simp add: f098_val c)
  have "fle (fl64 (p * c)) (fl64 (p * (2296835809958953 / 2251799813685248)))"
    using c1 assms(1) by (intro fle_fl64_mono) simp
  then have u: "fle (fmul (Finite p) (fadd f1 r)) (fmul (Finite p) f102)"
    by (simp add: f102_val c)
  show ?thesis unfolding stored_price_def using l u by (simp add: py_round2_mono)
qed

subsection \<open>The run of 31 January 2025\<close>

lemmas date_defs = date_key_def datetime_sub_days_def toordinal_def ymd2ord_def
  days_before_year_def days_before_month_def DAYS_BEFORE_MONTH_def DAYS_IN_MONTH_def
  is_leap_def ord2ymd_def MAXORDINAL_def strftime_Ym_def pad2_def digit_char_def Let_def

lemma str_nat_numeral:
  "str_nat (numeral w) =
     (if (numeral w :: nat) < 10 then [digit_char (numeral w)]
      else str_nat (numeral w div 10) @ [digit_char (numeral w mod 10)])"
  by (rule str_nat.simps)

lemma str_nat_0: "str_nat 0 = [digit_char 0]" by (simp add: str_nat.simps)
lemma str_nat_1: "str_nat 1 = [digit_char 1]" by (simp add: str_nat.simps)
lemma str_nat_Suc_0: "str_nat (Suc 0) = [digit_char 1]" by (simp add: str_nat.simps)

lemmas str_nat_eval = str_nat_numeral str_nat_0 str_nat_1 str_nat_Suc_0

lemma range36: "[0..<36] = [0, 1, 2, 3, 4, 5, 6, 7, 8, 9, 10, 11, 12, 13, 14, 15, 16, 17, 18, 19,
    20, 21, 22, 23, 24, 25, 26, 27, 28, 29, 30, 31, 32, 33, 34, 35 :: nat]"
  by code_simp

lemma jan31_keys: "map (date_key jan31) [0..<36] = map Inr keys_jan31"
  unfolding range36 keys_jan31_def by (simp add: jan31_def date_defs str_nat_eval)

lemma series_loop_by_keys:
  assumes "map (date_key now) js = map Inr ks"
  shows "series_loop now P uniform js md =
     Inr (foldl (\<lambda>m ki. AList.update (fst ki) (stored_price P (uniform fm002 f002 (snd ki))) m) md (zip ks js))"
  using assms
proof (induction js arbitrary: ks md)
  case Nil
  then show ?case by simp
next
  case (Cons i js)
  from Cons.prems obtain k ks' where ks: "ks = k # ks'" and k: "date_key now i = Inr k"
    and rest: "map (date_key now) js = map Inr ks'"
    by (cases ks) auto
  from k obtain d where d: "datetime_sub_days now (30 * int i) = Inr d" and kd: "strftime_Ym d = k"
    by (cases "datetime_sub_days now (30 * int i)") (auto simp: date_key_def)
  show ?case
    using Cons.IH [OF rest] by (simp add: ks d kd Let_def stored_price_def)
qed

lemma keys_foldl_update:
  "map fst (foldl (\<lambda>m ki. AList.update (fst ki) (f (snd ki)) m) md kis) =
     foldl (\<lambda>acc k. if k \<in> set acc then acc else acc @ [k]) (map fst md) (map fst kis)"
  by (induction kis arbitrary: md) (simp_all add: update_keys)

lemma jan31_key_nth:
  assumes "j < 36"
  shows "date_key jan31 j = Inr (keys_jan31 ! j)"
proof -
  have l: "length keys_jan31 = 36" by (simp add: keys_jan31_def)
  have "map (date_key jan31) [0..<36] ! j = map Inr keys_jan31 ! j"
    by (simp only: jan31_keys)
  then show ?thesis using assms l by simp
qed

lemma list_all_drop_nth:
  assumes "list_all P (drop n xs)" "n \<le> j" "j < length xs"
  shows "P (xs ! j)"
proof -
  have "j - n < length (drop n xs)" using assms(2,3) by simp
  then have "P (drop n xs ! (j - n))" using assms(1) by (simp only: list_all_length)
  moreover have "drop n xs ! (j - n) = xs ! (n + (j - n))"
    using assms(2,3) by (intro nth_drop) simp
  ultimately show ?thesis using assms(2) by simp
qed

lemma jan31_later_keys: "\<forall>j. 1 < j \<and> j < 36 \<longrightarrow> date_key jan31 j \<noteq> Inr ''2025-01''"
proof (intro allI impI)
  fix j :: nat
  assume j: "1 < j \<and> j < 36"
  have l: "length keys_jan31 = 36" by (simp add: keys_jan31_def)
  have "list_all (\<lambda>k. k \<noteq> ''2025-01'') (drop 2 keys_jan31)"
    by (simp add: keys_jan31_def)
  then have "keys_jan31 ! j \<noteq> ''2025-01''"
    by (rule list_all_drop_nth) (use j l in simp_all)
  then show "date_key jan31 j \<noteq> Inr ''2025-01''" using j by (simp add: jan31_key_nth)
qed

lemma jan31_ordinal: "toordinal jan31 = 739282"
  by (simp add: jan31_def date_defs)

lemma series_lookup_last:
  assumes "synthetic_series now P uniform = Inr md"
    and "i < 36" and "date_key now i = Inr k"
    and "\<forall>j. i < j \<and> j < 36 \<longrightarrow> date_key now j \<noteq> Inr k"
  shows "map_of md k = Some (stored_price P (uniform fm002 f002 i))"
proof -
  define F where "F = filter (\<lambda>j. date_key now j = Inr k) [0..<36]"
  have f: "F = filter (\<lambda>j. date_key now j = Inr k) [0..<i] @ [i]"
    unfolding F_def using assms(2,3,4) by (intro filter_upt_last) auto
  then have la: "last F = i" by simp
  have "F \<noteq> []" unfolding f by simp
  then obtain a b where ab: "F = a # b" by (cases F) simp_all
  have "map_of md k = (case F of [] \<Rightarrow> map_of [] k
      | _ # _ \<Rightarrow> Some (stored_price P (uniform fm002 f002 (last F))))"
    unfolding F_def
    using assms(1) [unfolded synthetic_series_def] by (rule series_loop_lookup)
  also have "\<dots> = Some (stored_price P (uniform fm002 f002 (last F)))" by (simp only: ab list.case)
  finally show ?thesis by (simp only: la)
qed

lemma jan31_series_runs: "\<exists>md. synthetic_series jan31 P uniform = Inr md"
  unfolding synthetic_series_def series_loop_by_keys [OF jan31_keys] by blast

lemma price_100_3_parsed: "py_float ''100.3'' = Inr (Finite price_100_3)"
proof -
  have "fl64 (1003 / 10) = Finite (7057985041019699 / 70368744177664)"
    by (rule fl64_eval [where k = 6 and e = "- 46"]) (simp_all add: rnd_even_numeral_frac)
  then show ?thesis by (simp add: parse_defs price_100_3_def)
qed

lemma price_100_3_times_f102:
  "fmul (Finite price_100_3) f102 = Finite (7199144741840093 / 70368744177664)"
  unfolding price_100_3_def f102_val fmul.simps
  by (rule fl64_eval [where k = 6 and e = "- 46"]) (simp_all add: rnd_even_numeral_frac)

lemma price_100_3_stored:
  "stored_price (Finite price_100_3) f002 = Finite (1799856554204201 / 17592186044416)"
  unfolding stored_price_def one_plus_f002 price_100_3_times_f102 py_round2.simps
  by (rule fl64_eval [where k = 6 and e = "- 46"]) (simp_all add: rnd_even_numeral_frac)

subsection \<open>Traces\<close>

lemma appends_refl: "appends P w w"
  by (simp add: appends_def)

lemma appends_trans: "appends P w w1 \<Longrightarrow> appends P w1 w2 \<Longrightarrow> appends P w w2"
  by (auto simp: appends_def)

lemma appends_emit: "P e \<Longrightarrow> appends P w (emit e w)"
  by (simp add: appends_def emit_def)

lemma appends_mono: "appends P w w' \<Longrightarrow> (\<And>e. P e \<Longrightarrow> Q e) \<Longrightarrow> appends Q w w'"
  by (auto simp: appends_def list_all_iff)

lemma emits_only_mono: "emits_only P m \<Longrightarrow> (\<And>e. P e \<Longrightarrow> Q e) \<Longrightarrow> emits_only Q m"
  unfolding emits_only_def by (blast intro: appends_mono)

lemma emits_only_call: "P (Call c) \<Longrightarrow> emits_only P (call env c)"
  by (auto simp: emits_only_def call_def appends_def emit_def split: prod.splits)

lemma emits_only_then_do:
  assumes "emits_only P m" "\<And>x. emits_only P (f x)"
  shows "emits_only P (then_do m f)"
  unfolding emits_only_def
proof
  fix w
  obtain r w1 where m: "m w = (r, w1)" by (cases "m w")
  have a: "appends P w w1" using assms(1) m by (auto simp: emits_only_def dest: spec [of _ w])
  show "appends P w (snd (then_do m f w))"
  proof (cases r)
    case (Inl e)
    then show ?thesis using a m by (simp add: then_do_def)
  next
    case (Inr x)
    have "appends P w1 (snd (f x w1))" using assms(2) [of x] by (simp add: emits_only_def)
    then show ?thesis using a m Inr by (auto simp: then_do_def intro: appends_trans)
  qed
qed

lemma emits_only_done_with: "emits_only P (done_with x)"
  by (simp add: emits_only_def done_with_def appends_refl)

lemma emits_only_lift_result: "emits_only P (lift_result r)"
  by (simp add: emits_only_def lift_result_def appends_refl)

lemma emits_only_logger_log: "P (Log level msg) \<Longrightarrow> emits_only P (logger_log level msg)"
  by (simp add: emits_only_def logger_log_def appends_emit)

lemma emits_only_type_query:
  assumes "\<And>t. P (Call (SendKeys t))" "P Sleep"
  shows "emits_only P (type_query env q)"
  unfolding emits_only_def
proof
  fix w
  show "appends P w (snd (type_query env q w))"
  proof (induction q arbitrary: w)
    case Nil
    show ?case by (simp add: appends_refl)
  next
    case (Cons c q)
    obtain r w1 where c: "call env (SendKeys [c]) w = (r, w1)" by (cases "call env (SendKeys [c]) w")
    have a: "appends P w w1"
      using emits_only_call [of P "SendKeys [c]" env] assms(1) c
      by (auto simp: emits_only_def dest: spec [of _ w])
    show ?case
    proof (cases r)
      case (Inl e)
      then show ?thesis using a c by simp
    next
      case (Inr x)
      have "appends P w1 (emit Sleep w1)" using assms(2) by (rule appends_emit)
      with a have "appends P w (emit Sleep w1)" by (rule appends_trans)
      then show ?thesis using c Inr Cons.IH [of "emit Sleep w1"] by (auto intro: appends_trans)
    qed
  qed
qed

lemma emits_only_attempt: "emits_only browsing (attempt env city state)"
  unfolding attempt_def
  by (intro emits_only_then_do emits_only_call emits_only_type_query emits_only_done_with)
    simp_all

lemma emits_only_navigate_loop: "emits_only browsing (navigate_loop env city state ns)"
  unfolding emits_only_def
proof
  fix w
  show "appends browsing w (snd (navigate_loop env city state ns w))"
  proof (induction ns arbitrary: w)
    case Nil
    show ?case by (simp add: appends_emit)
  next
    case (Cons n ns)
    obtain r w1 where a: "attempt env city state w = (r, w1)"
      by (cases "attempt env city state w")
    have w1: "appends browsing w w1"
      using emits_only_attempt [of env city state] a
      by (auto simp: emits_only_def dest: spec [of _ w])
    show ?case
    proof (cases r)
      case (Inr x)
      then show ?thesis using a w1 by simp
    next
      case (Inl e)
      show ?thesis
      proof (cases "is_Exception e")
        case False
        then show ?thesis using a w1 Inl by simp
      next
        case True
        let ?w2 = "emit Sleep (emit (Log WARNING (''Navigation retry '' @ str_nat (n + 1)
            @ '' failed: '' @ exn_str e)) w1)"
        have "appends browsing w1 ?w2"
          by (intro appends_trans [OF appends_emit appends_emit]) simp_all
        with w1 have "appends browsing w ?w2" by (rule appends_trans)
        then have "appends browsing w (snd (navigate_loop env city state ns ?w2))"
          using Cons.IH [of ?w2] by (rule appends_trans)
        then show ?thesis using a Inl True by simp
      qed
    qed
  qed
qed

lemma emits_only_navigate_to_city: "emits_only browsing (navigate_to_city env city state)"
  unfolding navigate_to_city_def by (rule emits_only_navigate_loop)

lemma emits_only_scrape_body: "emits_only browsing (scrape_body env state city)"
  unfolding scrape_body_def
  by (intro emits_only_then_do emits_only_navigate_to_city)
    (auto intro!: emits_only_then_do emits_only_call emits_only_lift_result
      emits_only_logger_log)

lemma emits_only_get_median_sale_prices:
  "emits_only browsing (get_median_sale_prices env state city)"
  unfolding emits_only_def
proof
  fix w
  obtain r w1 where s: "scrape_body env state city w = (r, w1)"
    by (cases "scrape_body env state city w")
  have w1: "appends browsing w w1"
    using emits_only_scrape_body [of env state city] s
    by (auto simp: emits_only_def dest: spec [of _ w])
  have l: "appends browsing w (emit (Log ERROR msg) w1)" for msg
    by (rule appends_trans [OF w1 appends_emit]) simp
  show "appends browsing w (snd (get_median_sale_prices env state city w))"
    using s w1 l by (cases r) (simp_all add: get_median_sale_prices_def)
qed

lemma appends_quits:
  assumes "appends P w w'" "\<And>e. P e \<Longrightarrow> e \<noteq> Call Quit"
  shows "quits (events w') = quits (events w)"
proof -
  from assms(1) obtain evs where e: "events w' = events w @ evs" and p: "list_all P evs"
    by (auto simp: appends_def)
  have "filter (\<lambda>e. e = Call Quit) evs = []"
    using p assms(2) by (auto simp: filter_empty_conv list_all_iff)
  then show ?thesis by (simp add: quits_def e)
qed

lemma appends_file_events:
  assumes "appends P w w'" "\<And>e. P e \<Longrightarrow> \<not> is_file_event e"
  shows "file_events (events w') = file_events (events w)"
proof -
  from assms(1) obtain evs where e: "events w' = events w @ evs" and p: "list_all P evs"
    by (auto simp: appends_def)
  have "filter is_file_event evs = []"
    using p assms(2) by (auto simp: filter_empty_conv list_all_iff)
  then show ?thesis by (simp add: file_events_def e)
qed

lemma browsing_not_quit: "browsing e \<Longrightarrow> e \<noteq> Call Quit"
  by (cases e) auto

lemma browsing_not_file: "browsing e \<Longrightarrow> \<not> is_file_event e"
  by (cases e) auto

lemma call_events: "events (snd (call env c w)) = events w @ [Call c]"
  by (simp add: call_def emit_def split: prod.splits)

lemma emits_only_input: "P (Input prompt) \<Longrightarrow> emits_only P (input prompt)"
  by (auto simp: emits_only_def input_def appends_def emit_def split: list.splits)

lemma emits_only_print: "P (Print line) \<Longrightarrow> emits_only P (print line)"
  by (simp add: emits_only_def print_def appends_emit)

lemma emits_only_print_prices:
  "(\<And>k v. P (PrintPrice k v)) \<Longrightarrow> emits_only P (print_prices prices)"
  by (auto simp: emits_only_def print_prices_def appends_def list_all_iff)

lemma emits_only_write_result:
  "(\<And>e. is_file_event e \<Longrightarrow> P e) \<Longrightarrow> emits_only P (write_result env prices)"
  by (auto simp: emits_only_def write_result_def appends_def emit_def split: option.splits)

lemma emits_only_main_body: "emits_only (\<lambda>e. e \<noteq> Call Quit) (main_body env)"
  unfolding main_body_def
  by (intro emits_only_then_do emits_only_input emits_only_print emits_only_print_prices
      emits_only_write_result
      emits_only_mono [OF emits_only_get_median_sale_prices browsing_not_quit])
    auto

lemma quit_driver_events: "events (snd (quit_driver env w)) = events w @ [Call Quit]"
proof -
  obtain r w1 where c: "call env Quit w = (r, w1)" by (cases "call env Quit w")
  have "events w1 = events w @ [Call Quit]" using call_events [of env Quit w] c by simp
  then show ?thesis using c by (cases r) (simp_all add: quit_driver_def)
qed

lemma scraper_del_quits: "quits (events (scraper_del env w)) = quits (events w) + 1"
proof -
  obtain r w1 where c: "call env Quit w = (r, w1)" by (cases "call env Quit w")
  have "events w1 = events w @ [Call Quit]" using call_events [of env Quit w] c by simp
  then show ?thesis using c
    by (cases r) (simp_all add: scraper_del_def quits_def emit_def)
qed

lemma main_events:
  assumes "main_body env w = (r, w1)"
  shows "events (snd (main env w)) =
     events w1
     @ (case r of
          Inl e \<Rightarrow> if is_Exception e then [Print (''Error in main: '' @ exn_str e)] else []
        | Inr u \<Rightarrow> [])
     @ [Call Quit]"
proof (cases r)
  case (Inr u)
  then show ?thesis using assms by (simp add: main_def quit_driver_events)
next
  case (Inl e)
  show ?thesis
  proof (cases "is_Exception e")
    case True
    then show ?thesis using assms Inl by (simp add: main_def quit_driver_events emit_def)
  next
    case False
    obtain r2 w2 where q: "quit_driver env w1 = (r2, w2)" by (cases "quit_driver env w1")
    have "events w2 = events w1 @ [Call Quit]" using quit_driver_events [of env w1] q by simp
    then show ?thesis using assms Inl False q by (cases r2) (simp_all add: main_def)
  qed
qed

lemma main_quits: "quits (events (snd (main env w))) = quits (events w) + 1"
proof -
  obtain r w1 where b: "main_body env w = (r, w1)" by (cases "main_body env w")
  have "appends (\<lambda>e. e \<noteq> Call Quit) w w1"
    using emits_only_main_body [of env] b by (auto simp: emits_only_def dest: spec [of _ w])
  then have "quits (events w1) = quits (events w)" by (rule appends_quits)
  then show ?thesis
    unfolding main_events [OF b] by (cases r) (simp_all add: quits_def)
qed

lemma run_quits: "quits (events (snd (run env w))) = quits (events w) + 2"
proof -
  obtain r w1 where m: "main env w = (r, w1)" by (cases "main env w")
  have "quits (events w1) = quits (events w) + 1" using main_quits [of env w] m by simp
  then show ?thesis using m by (simp add: run_def scraper_del_quits)
qed

subsection \<open>Attempts that always fail\<close>

lemma raises_only_call:
  assumes "\<forall>b c e b'. respond env b c = (Inl e, b') \<longrightarrow> Q e"
  shows "raises_only Q (call env c)"
  using assms by (auto simp: raises_only_def call_def split: prod.splits)

lemma raises_only_then_do:
  assumes "raises_only Q m" "\<And>x. raises_only Q (f x)"
  shows "raises_only Q (then_do m f)"
  unfolding raises_only_def
proof (intro allI impI)
  fix w e w'
  assume t: "then_do m f w = (Inl e, w')"
  obtain r w1 where m: "m w = (r, w1)" by (cases "m w")
  show "Q e"
  proof (cases r)
    case (Inl e1)
    then show ?thesis using t m assms(1) by (auto simp: then_do_def raises_only_def)
  next
    case (Inr x)
    then show ?thesis using t m assms(2) [of x] by (auto simp: then_do_def raises_only_def)
  qed
qed

lemma raises_only_done_with: "raises_only Q (done_with x)"
  by (simp add: raises_only_def done_with_def)

lemma raises_only_type_query:
  assumes "\<forall>b c e b'. respond env b c = (Inl e, b') \<longrightarrow> Q e"
  shows "raises_only Q (type_query env q)"
  unfolding raises_only_def
proof (intro allI impI)
  fix w e w'
  assume "type_query env q w = (Inl e, w')"
  then show "Q e"
  proof (induction q arbitrary: w)
    case Nil
    then show ?case by simp
  next
    case (Cons c q)
    obtain r w1 where c: "call env (SendKeys [c]) w = (r, w1)"
      by (cases "call env (SendKeys [c]) w")
    show ?case
    proof (cases r)
      case (Inl e1)
      then show ?thesis
        using Cons.prems c raises_only_call [OF assms, of "SendKeys [c]"]
        by (auto simp: raises_only_def)
    next
      case (Inr x)
      then show ?thesis using Cons.prems c Cons.IH [of "emit Sleep w1"] by simp
    qed
  qed
qed

lemma raises_only_attempt:
  assumes "\<forall>b c e b'. respond env b c = (Inl e, b') \<longrightarrow> Q e"
  shows "raises_only Q (attempt env city state)"
  unfolding attempt_def
  by (intro raises_only_then_do raises_only_call raises_only_type_query raises_only_done_with
      assms)

lemma never_returns_call:
  fixes env :: "'s env"
  assumes "\<forall>b. \<exists>e b'. respond env b c = (Inl e, b')"
  shows "never_returns (call env c)"
  unfolding never_returns_def
proof
  fix w :: "'s world"
  from assms obtain e b' where "respond env (browser w) c = (Inl e, b')" by blast
  then show "\<exists>e w'. call env c w = (Inl e, w')" by (simp add: call_def)
qed

lemma never_returns_first: "never_returns m \<Longrightarrow> never_returns (then_do m f)"
  unfolding never_returns_def then_do_def
  by (metis (mono_tags, lifting) old.prod.case old.sum.simps(5))

lemma never_returns_rest:
  assumes "\<And>x. never_returns (f x)"
  shows "never_returns (then_do m f)"
  unfolding never_returns_def
proof
  fix w
  obtain r w1 where m: "m w = (r, w1)" by (cases "m w")
  show "\<exists>e w'. then_do m f w = (Inl e, w')"
  proof (cases r)
    case (Inl e)
    then show ?thesis using m by (simp add: then_do_def)
  next
    case (Inr x)
    from assms [of x, unfolded never_returns_def] obtain e w' where "f x w1 = (Inl e, w')"
      by blast
    then show ?thesis using m Inr by (simp add: then_do_def)
  qed
qed

lemma never_returns_attempt:
  assumes "(\<forall>b. \<exists>e b'. respond env b (WaitClickable SEARCH_BOX) = (Inl e, b'))
         \<or> (\<forall>b. \<exists>e b'. respond env b (WaitUrlContains ''/city/'') = (Inl e, b'))"
  shows "never_returns (attempt env city state)"
  using assms
proof
  assume "\<forall>b. \<exists>e b'. respond env b (WaitClickable SEARCH_BOX) = (Inl e, b')"
  then have "never_returns (call env (WaitClickable SEARCH_BOX))" by (rule never_returns_call)
  then show ?thesis
    unfolding attempt_def by (intro never_returns_rest never_returns_first)
next
  assume "\<forall>b. \<exists>e b'. respond env b (WaitUrlContains ''/city/'') = (Inl e, b')"
  then have "never_returns (call env (WaitUrlContains ''/city/''))" by (rule never_returns_call)
  then show ?thesis
    unfolding attempt_def
    by (intro never_returns_rest [of _ "call env (Get REDFIN)"]
        never_returns_rest [of _ "call env (WaitClickable SEARCH_BOX)"]
        never_returns_rest [of _ "call env (FindElement SEARCH_BOX)"]
        never_returns_rest [of _ "call env Clear"]
        never_returns_rest [of _ "type_query env (city @ '', '' @ state)"]
        never_returns_rest [of _ "call env SendReturn"]
        never_returns_first)
qed

lemma housing_market_not_home: "u @ ''/housing-market'' \<noteq> REDFIN"
proof
  assume "u @ ''/housing-market'' = REDFIN"
  then have "last (u @ ''/housing-market'') = last REDFIN" by simp
  then show False by (simp add: REDFIN_def)
qed

lemma appends_attempts:
  assumes "appends P w w'" "\<And>e. P e \<Longrightarrow> e \<noteq> Call (Get REDFIN)"
  shows "attempts (events w') = attempts (events w)"
proof -
  from assms(1) obtain evs where e: "events w' = events w @ evs" and p: "list_all P evs"
    by (auto simp: appends_def)
  have "filter (\<lambda>e. e = Call (Get REDFIN)) evs = []"
    using p assms(2) by (auto simp: filter_empty_conv list_all_iff)
  then show ?thesis by (simp add: attempts_def e)
qed

lemma adds_attempts_then_do:
  assumes "adds_attempts n m" "\<And>x. emits_only (\<lambda>e. e \<noteq> Call (Get REDFIN)) (f x)"
  shows "adds_attempts n (then_do m f)"
  unfolding adds_attempts_def
proof
  fix w
  obtain r w1 where m: "m w = (r, w1)" by (cases "m w")
  have a: "attempts (events w1) = attempts (events w) + n"
    using assms(1) m by (auto simp: adds_attempts_def dest: spec [of _ w])
  show "attempts (events (snd (then_do m f w))) = attempts (events w) + n"
  proof (cases r)
    case (Inl e)
    then show ?thesis using a m by (simp add: then_do_def)
  next
    case (Inr x)
    have "appends (\<lambda>e. e \<noteq> Call (Get REDFIN)) w1 (snd (f x w1))"
      using assms(2) [of x] by (simp add: emits_only_def)
    then have "attempts (events (snd (f x w1))) = attempts (events w1)"
      by (rule appends_attempts)
    then show ?thesis using a m Inr by (simp add: then_do_def)
  qed
qed

lemma adds_attempts_attempt: "adds_attempts 1 (attempt env city state)"
proof -
  have "adds_attempts 1 (call env (Get REDFIN))"
    by (simp add: adds_attempts_def call_events attempts_def)
  then show ?thesis
    unfolding attempt_def
    by (rule adds_attempts_then_do)
      (intro emits_only_then_do emits_only_call emits_only_type_query emits_only_done_with;
        simp add: housing_market_not_home)
qed

lemma navigate_loop_gives_up:
  assumes "never_returns (attempt env city state)"
    and "raises_only is_Exception (attempt env city state)"
  shows "\<exists>w'. navigate_loop env city state ns w = (Inr False, w')
       \<and> attempts (events w') = attempts (events w) + length ns"
proof (induction ns arbitrary: w)
  case Nil
  show ?case by (simp add: emit_def attempts_def)
next
  case (Cons n ns)
  from assms(1) obtain e w1 where a: "attempt env city state w = (Inl e, w1)"
    unfolding never_returns_def by blast
  have e: "is_Exception e" using assms(2) a by (auto simp: raises_only_def)
  have c: "attempts (events w1) = attempts (events w) + 1"
    using adds_attempts_attempt [of env city state] a
    by (auto simp: adds_attempts_def dest: spec [of _ w])
  let ?w2 = "emit Sleep (emit (Log WARNING (''Navigation retry '' @ str_nat (n + 1)
      @ '' failed: '' @ exn_str e)) w1)"
  have c2: "attempts (events ?w2) = attempts (events w) + 1"
    using c by (simp add: emit_def attempts_def)
  from Cons.IH [of ?w2] obtain w' where
    "navigate_loop env city state ns ?w2 = (Inr False, w')"
    "attempts (events w') = attempts (events ?w2) + length ns" by blast
  then show ?case using a e c2 by simp
qed

subsection \<open>The two fakes\<close>

lemmas prog_defs = then_do_def call_def done_with_def lift_result_def logger_log_def
  emit_def attempt_def navigate_to_city_def REDFIN_def SEARCH_BOX_def rstrip_slash_def

lemma upt_0_3: "[0..<3] = [0, 1, 2]"
  by (simp add: upt_rec)

lemma working_navigation:
  "fst (navigate_to_city working_env ''Austin'' ''TX'' w) = Inr True"
  by (simp add: prog_defs working_env_def upt_0_3)

lemma working_price:
  "fst (get_median_sale_prices working_env ''TX'' ''Austin'' w)
     = synthetic_series jan31 (Finite 450000) (\<lambda>a b i. b)"
proof -
  obtain md where md: "synthetic_series jan31 (Finite 450000) (\<lambda>a b i. b) = Inr md"
    using jan31_series_runs by blast
  have p: "parse_price (py_strip ''$450K'') = Inr (Finite 450000)"
    by (simp add: parse_defs fl64_numeral)
  show ?thesis
    by (simp add: get_median_sale_prices_def scrape_body_def prog_defs working_env_def
        upt_0_3 p md)
qed

lemma failed_navigation_raises:
  assumes "navigate_to_city env city state w = (Inr False, w')"
  shows "get_median_sale_prices env state city w =
           (Inl (navigation_error city state),
            emit (Log ERROR (''ValueError in get_median_sale_prices: ''
                             @ exn_str (navigation_error city state))) w')"
proof -
  have v: "is_ValueError (navigation_error city state)"
    by (simp add: navigation_error_def is_ValueError_def)
  have "scrape_body env state city w = (Inl (navigation_error city state), w')"
    using assms by (simp add: scrape_body_def then_do_def lift_result_def)
  then show ?thesis using v by (simp add: get_median_sale_prices_def)
qed

lemma stuck_navigation:
  "\<exists>w'. navigate_to_city stuck_env city state w = (Inr False, w')"
proof -
  have n: "never_returns (attempt stuck_env city state)"
    by (rule never_returns_attempt) (simp add: stuck_env_def)
  have "\<forall>b c e b'. respond stuck_env b c = (Inl e, b') \<longrightarrow> is_Exception e"
  proof (intro allI impI)
    fix b c e b'
    assume "respond stuck_env b c = (Inl e, b')"
    then show "is_Exception e" by (cases c) (auto simp: stuck_env_def is_Exception_def)
  qed
  then have r: "raises_only is_Exception (attempt stuck_env city state)"
    by (rule raises_only_attempt)
  from navigate_loop_gives_up [OF n r, of "[0..<3]" w] show ?thesis
    unfolding navigate_to_city_def by blast
qed

lemma start_inputs:
  "input ''state: '' start
     = (Inr ''TX'', \<lparr>browser = 0, stdin = [''Austin''], events = [Input ''state: '']\<rparr>)"
  "input ''city: '' \<lparr>browser = 0, stdin = [''Austin''], events = [Input ''state: '']\<rparr>
     = (Inr ''Austin'',
        \<lparr>browser = 0, stdin = [], events = [Input ''state: '', Input ''city: '']\<rparr>)"
  by (simp_all add: input_def start_def emit_def)

subsection \<open>What \<^verbatim>\<open>random.uniform(-0.02, 0.02)\<close> returns\<close>

lemma rnd_even_numeral: "rnd_even (numeral w) = numeral w"
  using rnd_even_of_int [of "numeral w"] by simp

lemma fl64_f002_again: "fl64 (5764607523034235 / 288230376151711744)
    = Finite (5764607523034235 / 288230376151711744)"
  by (rule fl64_eval [where k = "- 6" and e = "- 58"]) (simp_all add: rnd_even_numeral_frac rnd_even_numeral)

lemma fl64_fm002_again: "fl64 (- (5764607523034235 / 288230376151711744))
    = Finite (- (5764607523034235 / 288230376151711744))"
  by (rule fl64_eval [where k = "- 6" and e = "- 58"])
    (simp_all add: rnd_even_minus rnd_even_numeral_frac rnd_even_numeral)

lemma fl64_f004: "fl64 (5764607523034235 / 144115188075855872)
    = Finite (5764607523034235 / 144115188075855872)"
  by (rule fl64_eval [where k = "- 5" and e = "- 57"]) (simp_all add: rnd_even_numeral_frac rnd_even_numeral)

lemma width_of_band: "fsub f002 fm002 = Finite (5764607523034235 / 144115188075855872)"
proof -
  have "fsub f002 fm002
      = fl64 (5764607523034235 / 288230376151711744 + 5764607523034235 / 288230376151711744)"
    by (simp add: fsub_def f002_val fm002_val)
  also have "5764607523034235 / 288230376151711744 + 5764607523034235 / 288230376151711744
      = (5764607523034235 / 144115188075855872 :: rat)" by simp
  finally show ?thesis by (simp only: fl64_f004)
qed

lemma py_uniform_in_band:
  assumes "randoms i = Finite u" "0 \<le> u" "u < 1"
  shows "fle fm002 (py_uniform randoms fm002 f002 i)
       \<and> fle (py_uniform randoms fm002 f002 i) f002"
proof -
  let ?c = "5764607523034235 / 288230376151711744 :: rat"
  let ?w = "5764607523034235 / 144115188075855872 :: rat"
  have w: "?w = 2 * ?c" by simp
  have "fle (fl64 0) (fl64 (?w * u))" using assms(2) by (intro fle_fl64_mono) simp
  moreover have "fle (fl64 (?w * u)) (fl64 ?w)"
  proof (rule fle_fl64_mono)
    have "?w * u \<le> ?w * 1" using assms(3) by (intro mult_left_mono) simp_all
    then show "?w * u \<le> ?w" by simp
  qed
  ultimately obtain y where y: "fl64 (?w * u) = Finite y" and y0: "0 \<le> y" and y1: "y \<le> ?w"
    unfolding fl64_0 fl64_f004 by (blast dest: fle_Finite_cases)
  have "py_uniform randoms fm002 f002 i = fadd fm002 (fl64 (?w * u))"
    by (simp only: py_uniform_def width_of_band assms(1) fmul.simps)
  then have p: "py_uniform randoms fm002 f002 i = fl64 (- ?c + y)"
    by (simp only: y fm002_val fadd.simps)
  have "fle (fl64 (- ?c)) (fl64 (- ?c + y))" using y0 by (intro fle_fl64_mono) simp
  then have "fle (Finite (- ?c)) (fl64 (- ?c + y))" by (simp only: fl64_fm002_again)
  then have lo: "fle fm002 (py_uniform randoms fm002 f002 i)"
    by (subst p) (simp only: fm002_val)
  have "- ?c + y \<le> ?c" using y1 unfolding w by linarith
  then have "fle (fl64 (- ?c + y)) (fl64 ?c)" by (rule fle_fl64_mono)
  then have "fle (fl64 (- ?c + y)) (Finite ?c)" by (simp only: fl64_f002_again)
  then have hi: "fle (py_uniform randoms fm002 f002 i) f002"
    by (subst p) (simp only: f002_val)
  show ?thesis using lo hi by simp
qed

section \<open>The price-text parser\<close>

text \<open>
  Claim C2. After \<^verbatim>\<open>strip()\<close>, the parser maps \<^verbatim>\<open>"$450K"\<close> to 450000.0 and
  \<^verbatim>\<open>"$875,250"\<close> to 875250.0, and raises a \<open>ValueError\<close> for \<^verbatim>\<open>"N/A"\<close>. In general,
  when the text left after removing \<^verbatim>\<open>$\<close> and \<^verbatim>\<open>,\<close> contains \<^verbatim>\<open>K\<close>, the result is
  the float read from the text without \<^verbatim>\<open>K\<close>, multiplied by 1000; otherwise it is the
  float read from that text.
\<close>

theorem price_parser_examples_and_K_rule:
  "parse_price (py_strip ''$450K'') = Inr (Finite 450000)
   \<and> parse_price (py_strip ''$875,250'') = Inr (Finite 875250)
   \<and> parse_price (py_strip ''N/A'') = Inl (float_error ''N/A'')
   \<and> is_ValueError (float_error ''N/A'')
   \<and> (\<forall>t x. CHR ''K'' \<in> set (clean_price t)
          \<longrightarrow> py_float (remove_char (CHR ''K'') (clean_price t)) = Inr x
          \<longrightarrow> parse_price t = Inr (fmul x f1000))
   \<and> (\<forall>t. CHR ''K'' \<notin> set (clean_price t) \<longrightarrow> parse_price t = py_float (clean_price t))"
proof -
  have a: "parse_price (py_strip ''$450K'') = Inr (Finite 450000)"
    by (simp add: parse_defs fl64_numeral)
  have b: "parse_price (py_strip ''$875,250'') = Inr (Finite 875250)"
    by (simp add: parse_defs fl64_numeral)
  have c: "parse_price (py_strip ''N/A'') = Inl (float_error ''N/A'')"
    by (simp add: parse_defs)
  have d: "is_ValueError (float_error ''N/A'')"
    by (simp add: float_error_def is_ValueError_def)
  have e: "\<forall>t x. CHR ''K'' \<in> set (clean_price t)
          \<longrightarrow> py_float (remove_char (CHR ''K'') (clean_price t)) = Inr x
          \<longrightarrow> parse_price t = Inr (fmul x f1000)"
    by (simp add: parse_price_def)
  have f: "\<forall>t. CHR ''K'' \<notin> set (clean_price t) \<longrightarrow> parse_price t = py_float (clean_price t)"
    by (simp add: parse_price_def)
  show ?thesis by (intro conjI a b c d e f)
qed

theorem price_parser_witness:
  "CHR ''K'' \<in> set (clean_price ''$450K'')
   \<and> py_float (remove_char (CHR ''K'') (clean_price ''$450K'')) = Inr (Finite 450)
   \<and> parse_price ''$450K'' = Inr (fmul (Finite 450) f1000)
   \<and> CHR ''K'' \<notin> set (clean_price ''$875,250'')
   \<and> parse_price ''$875,250'' = py_float (clean_price ''$875,250'')"
proof -
  have k: "CHR ''K'' \<in> set (clean_price ''$450K'')"
    by (simp add: clean_price_def remove_char_def)
  have p: "py_float (remove_char (CHR ''K'') (clean_price ''$450K'')) = Inr (Finite 450)"
    by (simp add: parse_defs fl64_numeral)
  have n: "CHR ''K'' \<notin> set (clean_price ''$875,250'')"
    by (simp add: clean_price_def remove_char_def)
  have r: "parse_price ''$450K'' = Inr (fmul (Finite 450) f1000)"
    using price_parser_examples_and_K_rule k p by blast
  have s: "parse_price ''$875,250'' = py_float (clean_price ''$875,250'')"
    using price_parser_examples_and_K_rule n by blast
  show ?thesis by (intro conjI k p r n s)
qed

text \<open>
  Claim C10. The test for the thousands marker is a containment test: wherever a
  \<^verbatim>\<open>K\<close> stands in the text left after removing \<^verbatim>\<open>$\<close> and \<^verbatim>\<open>,\<close>, every
  \<^verbatim>\<open>K\<close> is removed and the float read from the rest is multiplied by 1000 (a parse
  error of the rest is passed on). So \<^verbatim>\<open>"K450"\<close> and \<^verbatim>\<open>"4K50"\<close> both give 450000.0.
\<close>

theorem K_marker_at_any_position:
  "(clean_price t = pre @ [CHR ''K''] @ post \<longrightarrow>
      parse_price t =
        (case py_float (remove_char (CHR ''K'') pre @ remove_char (CHR ''K'') post) of
           Inl e \<Rightarrow> Inl e
         | Inr x \<Rightarrow> Inr (fmul x f1000)))
   \<and> parse_price ''K450'' = Inr (Finite 450000)
   \<and> parse_price ''4K50'' = Inr (Finite 450000)
   \<and> parse_price ''$4K5K0'' = Inr (Finite 450000)"
proof -
  have a: "parse_price ''K450'' = Inr (Finite 450000)"
    by (simp add: parse_defs fl64_numeral)
  have b: "parse_price ''4K50'' = Inr (Finite 450000)"
    by (simp add: parse_defs fl64_numeral)
  have c: "parse_price ''$4K5K0'' = Inr (Finite 450000)"
    by (simp add: parse_defs fl64_numeral)
  have g: "clean_price t = pre @ [CHR ''K''] @ post \<longrightarrow>
      parse_price t =
        (case py_float (remove_char (CHR ''K'') pre @ remove_char (CHR ''K'') post) of
           Inl e \<Rightarrow> Inl e
         | Inr x \<Rightarrow> Inr (fmul x f1000))"
    by (simp add: parse_price_def remove_char_def)
  show ?thesis by (intro conjI a b c g)
qed

theorem K_marker_at_any_position_witness:
  "clean_price ''$4,5K0'' = ''45'' @ [CHR ''K''] @ ''0''
   \<and> parse_price ''$4,5K0'' = Inr (Finite 450000)"
proof -
  have h: "clean_price ''$4,5K0'' = ''45'' @ [CHR ''K''] @ ''0''"
    by (simp add: clean_price_def remove_char_def)
  have p: "py_float (remove_char (CHR ''K'') ''45'' @ remove_char (CHR ''K'') ''0'')
      = Inr (Finite 450)"
    by (simp add: parse_defs fl64_numeral)
  have m: "fmul (Finite 450) f1000 = Finite 450000"
    by (simp add: f1000_def fl64_numeral)
  have r: "parse_price ''$4,5K0'' = Inr (Finite 450000)"
    using K_marker_at_any_position [of "''$4,5K0''" "''45''" "''0''"] h p m by simp
  show ?thesis by (intro conjI h r)
qed

section \<open>The synthetic series\<close>

text \<open>
  Claim C5. Iteration \<open>i\<close> (from 0 to 35) takes the anchor time minus \<open>30 \<times> i\<close> days as
  candidate date, formats it as year and month, draws the perturbation with
  \<^verbatim>\<open>random.uniform(-0.02, 0.02)\<close>, computes the anchor price times one plus the
  perturbation, rounds it to two decimals and stores it under the key: for an anchor date
  more than 1050 days after 0001-01-01 (so that no subtraction leaves the calendar), the
  loop of the source returns the series that the specification's wording defines, with
  the same interval for the draw; and, the library computing the draw as
  \<^verbatim>\<open>a + (b - a) * random()\<close> with \<^verbatim>\<open>random()\<close> in \<open>[0, 1)\<close>, every draw lies in the
  closed interval from -0.02 to +0.02.
\<close>

theorem generator_follows_spec_iteration:
  assumes "1050 < toordinal now" and "toordinal now \<le> MAXORDINAL"
  shows "synthetic_series now P uniform = Inr (spec_expand P now uniform)
       \<and> (\<forall>i < 36. datetime_sub_days now (30 * int i) = Inr (spec_candidate_date now i)
                  \<and> date_key now i = Inr (strftime_Ym (spec_candidate_date now i))
                  \<and> spec_perturbation uniform i = uniform fm002 f002 i
                  \<and> stored_price P (uniform fm002 f002 i)
                      = py_round2 (spec_perturbed_price P (spec_perturbation uniform i)))
       \<and> (\<forall>randoms i u. randoms i = Finite u \<and> 0 \<le> u \<and> u < 1
            \<longrightarrow> fle (fl64 (- (2 / 100))) (spec_perturbation (py_uniform randoms) i)
              \<and> fle (spec_perturbation (py_uniform randoms) i) (fl64 (2 / 100)))"
proof -
  have r: "\<forall>i \<in> set [0..<36]. 30 * int i < toordinal now" using assms(1) by auto
  have a: "synthetic_series now P uniform = Inr (spec_expand P now uniform)"
    unfolding synthetic_series_def spec_expand_def
    using r assms(2) by (rule series_loop_spec)
  have b: "datetime_sub_days now (30 * int i) = Inr (spec_candidate_date now i)
      \<and> date_key now i = Inr (strftime_Ym (spec_candidate_date now i))
      \<and> spec_perturbation uniform i = uniform fm002 f002 i
      \<and> stored_price P (uniform fm002 f002 i)
          = py_round2 (spec_perturbed_price P (spec_perturbation uniform i))"
    if "i < 36" for i
  proof -
    have i: "0 < toordinal now - 30 * int i" "toordinal now - 30 * int i \<le> MAXORDINAL"
      using that assms by auto
    obtain y m d where o: "ord2ymd (toordinal now - 30 * int i) = (y, m, d)"
      by (cases "ord2ymd (toordinal now - 30 * int i)")
    have s: "datetime_sub_days now (30 * int i) = Inr (spec_candidate_date now i)"
      using i o by (simp add: datetime_sub_days_def spec_candidate_date_def Let_def)
    show ?thesis
      by (simp add: s date_key_def stored_price_def spec_perturbed_price_def
          spec_perturbation_eq)
  qed
  have c: "fle (fl64 (- (2 / 100))) (spec_perturbation (py_uniform randoms) i)
      \<and> fle (spec_perturbation (py_uniform randoms) i) (fl64 (2 / 100))"
    if "randoms i = Finite u \<and> 0 \<le> u \<and> u < 1" for randoms i u
  proof -
    have "fle fm002 (py_uniform randoms fm002 f002 i)
        \<and> fle (py_uniform randoms fm002 f002 i) f002"
      using that py_uniform_in_band [of randoms i u] by blast
    moreover have "fl64 (- (2 / 100)) = fm002" "fl64 (2 / 100) = f002"
      by (simp_all add: fm002_def f002_def)
    ultimately show ?thesis by (simp only: spec_perturbation_eq)
  qed
  show ?thesis using a b c by blast
qed

theorem generator_follows_spec_iteration_witness:
  "1050 < toordinal jan31 \<and> toordinal jan31 \<le> MAXORDINAL
   \<and> synthetic_series jan31 (Finite 450000) (py_uniform (\<lambda>i. Finite (1 / 2)))
       = Inr (spec_expand (Finite 450000) jan31 (py_uniform (\<lambda>i. Finite (1 / 2))))
   \<and> fle (fl64 (- (2 / 100))) (spec_perturbation (py_uniform (\<lambda>i. Finite (1 / 2))) 0)
   \<and> fle (spec_perturbation (py_uniform (\<lambda>i. Finite (1 / 2))) 0) (fl64 (2 / 100))"
proof -
  have o: "1050 < toordinal jan31" "toordinal jan31 \<le> MAXORDINAL"
    by (simp_all add: jan31_ordinal MAXORDINAL_def)
  note t = generator_follows_spec_iteration
    [OF o, of "Finite 450000" "py_uniform (\<lambda>i. Finite (1 / 2))"]
  have a: "synthetic_series jan31 (Finite 450000) (py_uniform (\<lambda>i. Finite (1 / 2)))
       = Inr (spec_expand (Finite 450000) jan31 (py_uniform (\<lambda>i. Finite (1 / 2))))"
    using t by (rule conjunct1)
  have h: "(\<lambda>i::nat. Finite (1 / 2)) 0 = Finite (1 / 2) \<and> (0::rat) \<le> 1 / 2 \<and> (1 / 2 :: rat) < 1"
    by simp
  have c: "fle (fl64 (- (2 / 100))) (spec_perturbation (py_uniform (\<lambda>i. Finite (1 / 2))) 0)
      \<and> fle (spec_perturbation (py_uniform (\<lambda>i. Finite (1 / 2))) 0) (fl64 (2 / 100))"
    by (rule t [THEN conjunct2, THEN conjunct2, rule_format, OF h])
  show ?thesis by (intro conjI o a c [THEN conjunct1] c [THEN conjunct2])
qed

text \<open>
  Claim C6. When several iterations produce the same key, the value kept under it is the
  one of the last of them: if iteration \<open>i\<close> produces the key \<open>k\<close> and no later iteration
  does, the final mapping holds the value of iteration \<open>i\<close> under \<open>k\<close>.
\<close>

theorem last_write_wins:
  assumes "synthetic_series now P uniform = Inr md"
    and "i < 36" and "date_key now i = Inr k"
    and "\<forall>j. i < j \<and> j < 36 \<longrightarrow> date_key now j \<noteq> Inr k"
  shows "map_of md k = Some (stored_price P (uniform fm002 f002 i))"
  using assms by (rule series_lookup_last)

theorem last_write_wins_witness:
  "(1::nat) < 36 \<and> date_key jan31 0 = Inr ''2025-01'' \<and> date_key jan31 1 = Inr ''2025-01''
   \<and> date_key jan31 2 \<noteq> Inr ''2025-01'' \<and> date_key jan31 35 \<noteq> Inr ''2025-01''
   \<and> map_of (series_of (synthetic_series jan31 (Finite 450000)
                 (\<lambda>a b i. if i = 0 then b else a))) ''2025-01''
       = Some (stored_price (Finite 450000) fm002)"
proof -
  let ?uniform = "\<lambda>(a::pyfloat) (b::pyfloat) (i::nat). if i = 0 then b else a"
  obtain md where md: "synthetic_series jan31 (Finite 450000) ?uniform = Inr md"
    using jan31_series_runs by blast
  have k0: "date_key jan31 0 = Inr ''2025-01''"
    using jan31_key_nth [of 0] by (simp add: keys_jan31_def)
  have k1: "date_key jan31 1 = Inr ''2025-01''"
    using jan31_key_nth [of 1] by (simp add: keys_jan31_def)
  have k2: "date_key jan31 2 \<noteq> Inr ''2025-01''" using jan31_later_keys by simp
  have k35: "date_key jan31 35 \<noteq> Inr ''2025-01''" using jan31_later_keys by simp
  have m: "map_of md ''2025-01'' = Some (stored_price (Finite 450000) fm002)"
    using last_write_wins [OF md _ k1 jan31_later_keys] by simp
  show ?thesis using k0 k1 k2 k35 m by (simp add: md series_of_def)
qed

text \<open>
  Claim C1. The claim is that the mapping always has exactly 36 distinct keys. On
  31 January 2025 iteration 0 falls on 31 January and iteration 1, thirty days earlier, on
  1 January: both give the key \<^verbatim>\<open>2025-01\<close>, and the mapping that the source builds has
  35 keys, whatever the price and the uniform.
\<close>

theorem month_end_run_has_35_keys:
  "map_sum id (map fst) (synthetic_series jan31 P uniform) =
     Inr [''2025-01'', ''2024-12'', ''2024-11'', ''2024-10'', ''2024-09'',
      ''2024-08'', ''2024-07'', ''2024-06'', ''2024-05'', ''2024-04'',
      ''2024-03'', ''2024-02'', ''2024-01'', ''2023-12'', ''2023-11'',
      ''2023-10'', ''2023-09'', ''2023-08'', ''2023-07'', ''2023-06'',
      ''2023-05'', ''2023-04'', ''2023-03'', ''2023-02'', ''2023-01'',
      ''2022-12'', ''2022-11'', ''2022-10'', ''2022-09'', ''2022-08'',
      ''2022-07'', ''2022-06'', ''2022-05'', ''2022-04'', ''2022-03'']
   \<and> map_sum id length (synthetic_series jan31 P uniform) = Inr 35
   \<and> date_key jan31 0 = Inr ''2025-01'' \<and> date_key jan31 1 = Inr ''2025-01''"
proof -
  have l: "length keys_jan31 = length [0..<36]" by (simp add: keys_jan31_def)
  have z: "map fst (zip keys_jan31 [0..<36]) = keys_jan31" using l by (rule map_fst_zip)
  have a: "map_sum id (map fst) (synthetic_series jan31 P uniform) =
     Inr [''2025-01'', ''2024-12'', ''2024-11'', ''2024-10'', ''2024-09'',
      ''2024-08'', ''2024-07'', ''2024-06'', ''2024-05'', ''2024-04'',
      ''2024-03'', ''2024-02'', ''2024-01'', ''2023-12'', ''2023-11'',
      ''2023-10'', ''2023-09'', ''2023-08'', ''2023-07'', ''2023-06'',
      ''2023-05'', ''2023-04'', ''2023-03'', ''2023-02'', ''2023-01'',
      ''2022-12'', ''2022-11'', ''2022-10'', ''2022-09'', ''2022-08'',
      ''2022-07'', ''2022-06'', ''2022-05'', ''2022-04'', ''2022-03'']"
    unfolding synthetic_series_def series_loop_by_keys [OF jan31_keys]
    using z by (simp add: keys_foldl_update [where f = "\<lambda>i. stored_price P (uniform fm002 f002 i)"] keys_jan31_def)
  obtain md where md: "synthetic_series jan31 P uniform = Inr md"
    using jan31_series_runs by blast
  have "length (map fst md) = 35" using a by (simp add: md)
  then have b: "map_sum id length (synthetic_series jan31 P uniform) = Inr 35"
    by (simp add: md)
  have k0: "date_key jan31 0 = Inr ''2025-01''"
    using jan31_key_nth [of 0] by (simp add: keys_jan31_def)
  have k1: "date_key jan31 1 = Inr ''2025-01''"
    using jan31_key_nth [of 1] by (simp add: keys_jan31_def)
  show ?thesis by (intro conjI a b k0 k1)
qed

text \<open>
  Claim C4. As stated (every stored value within \<open>[P \<times> 0.98, P \<times> 1.02]\<close>) the claim
  fails: the value is rounded to two decimals after the perturbation, and the rounding can
  leave the interval. With the price 100.3 and the draw 0.02 the stored value is 102.31,
  above \<open>100.3 \<times> 1.02 = 102.306\<close>, whether the bound is computed in floating point or
  exactly.
\<close>

theorem rounded_value_leaves_band:
  "py_float ''100.3'' = Inr (Finite price_100_3)
   \<and> 0 < price_100_3 \<and> fle fm002 f002 \<and> fle f002 f002
   \<and> \<not> values_within (fmul (Finite price_100_3) f098) (fmul (Finite price_100_3) f102)
        (series_of (synthetic_series jan31 (Finite price_100_3) (\<lambda>a b i. b)))
   \<and> \<not> values_within (Finite (price_100_3 * (49 / 50))) (Finite (price_100_3 * (51 / 50)))
        (series_of (synthetic_series jan31 (Finite price_100_3) (\<lambda>a b i. b)))"
proof -
  obtain md where md: "synthetic_series jan31 (Finite price_100_3) (\<lambda>a b i. b) = Inr md"
    using jan31_series_runs by blast
  have k: "date_key jan31 35 = Inr ''2022-03''"
    using jan31_key_nth [of 35] by (simp add: keys_jan31_def)
  have "map_of md ''2022-03'' = Some (stored_price (Finite price_100_3) f002)"
    using md _ k by (rule series_lookup_last) auto
  then have mem: "(''2022-03'', Finite (1799856554204201 / 17592186044416)) \<in> set md"
    unfolding price_100_3_stored by (rule map_of_SomeD)
  have hi: "\<not> fle (Finite (1799856554204201 / 17592186044416)) (fmul (Finite price_100_3) f102)"
    by (simp add: price_100_3_times_f102)
  have hi': "\<not> fle (Finite (1799856554204201 / 17592186044416))
      (Finite (price_100_3 * (51 / 50)))"
    by (simp add: price_100_3_def)
  have out: "\<not> values_within lo up md"
    if "\<not> fle (Finite (1799856554204201 / 17592186044416)) up" for lo up
  proof
    assume "values_within lo up md"
    then have "\<forall>kv \<in> set md. fle lo (snd kv) \<and> fle (snd kv) up"
      by (simp only: values_within_def list_all_iff)
    from bspec [OF this mem] show False using that by simp
  qed
  have a: "\<not> values_within (fmul (Finite price_100_3) f098) (fmul (Finite price_100_3) f102) md"
    using hi by (rule out)
  have b: "\<not> values_within (Finite (price_100_3 * (49 / 50))) (Finite (price_100_3 * (51 / 50))) md"
    using hi' by (rule out)
  have p: "0 < price_100_3" by (simp add: price_100_3_def)
  have r: "fle fm002 f002" "fle f002 f002" by (simp_all add: fm002_val f002_val)
  show ?thesis
    using a b p r price_100_3_parsed by (simp add: md series_of_def)
qed

text \<open>
  Claim C4, amended. For an anchor price \<open>P > 0\<close> and uniform in \<open>[-0.02, 0.02]\<close>, every
  stored value lies between \<open>P \<times> 0.98\<close> rounded to two decimals and \<open>P \<times> 1.02\<close> rounded
  to two decimals (products and roundings as the floats compute them).
\<close>

theorem perturbed_values_in_rounded_band:
  assumes "0 < p"
    and "\<forall>i < 36. fle fm002 (uniform fm002 f002 i) \<and> fle (uniform fm002 f002 i) f002"
    and "synthetic_series now (Finite p) uniform = Inr md"
  shows "values_within (py_round2 (fmul (Finite p) f098)) (py_round2 (fmul (Finite p) f102)) md"
proof -
  let ?Q = "\<lambda>v. fle (py_round2 (fmul (Finite p) f098)) v
      \<and> fle v (py_round2 (fmul (Finite p) f102))"
  have A: "\<forall>i \<in> set [0..<36]. ?Q (stored_price (Finite p) (uniform fm002 f002 i))"
  proof
    fix i
    assume "i \<in> set [0..<36]"
    then have "i < 36" by simp
    with assms(2) have "fle fm002 (uniform fm002 f002 i)" "fle (uniform fm002 f002 i) f002" by simp_all
    with assms(1) show "?Q (stored_price (Finite p) (uniform fm002 f002 i))" by (rule stored_price_band)
  qed
  have B: "\<forall>v \<in> snd ` set []. ?Q v" by simp
  have "\<forall>v \<in> snd ` set md. ?Q v"
    using assms(3) [unfolded synthetic_series_def] B A by (rule series_loop_values)
  then show ?thesis unfolding values_within_def list_all_iff by simp
qed

theorem perturbed_values_in_rounded_band_witness:
  "0 < price_100_3 \<and> fle fm002 f002 \<and> fle f002 f002
   \<and> values_within (py_round2 (fmul (Finite price_100_3) f098))
        (py_round2 (fmul (Finite price_100_3) f102))
        (series_of (synthetic_series jan31 (Finite price_100_3) (\<lambda>a b i. b)))"
proof -
  obtain md where md: "synthetic_series jan31 (Finite price_100_3) (\<lambda>a b i. b) = Inr md"
    using jan31_series_runs by blast
  have p: "0 < price_100_3" by (simp add: price_100_3_def)
  have r: "fle fm002 f002" "fle f002 f002" by (simp_all add: fm002_val f002_val)
  have "values_within (py_round2 (fmul (Finite price_100_3) f098))
        (py_round2 (fmul (Finite price_100_3) f102)) md"
    using perturbed_values_in_rounded_band [OF p _ md] r by simp
  then show ?thesis using p r by (simp add: md series_of_def)
qed

section \<open>Navigation, failure and teardown\<close>

text \<open>
  Claim C3. On a session where an awaited condition fails on every attempt (the search
  box never becomes clickable, or the city page never loads) and whose calls raise nothing
  outside \<^verbatim>\<open>Exception\<close>, \<^verbatim>\<open>navigate_to_city\<close> makes exactly three attempts and returns
  \<^verbatim>\<open>False\<close>; no exception leaves it.
\<close>

theorem navigate_gives_up_after_three_attempts:
  assumes "(\<forall>b. \<exists>e b'. respond env b (WaitClickable SEARCH_BOX) = (Inl e, b'))
         \<or> (\<forall>b. \<exists>e b'. respond env b (WaitUrlContains ''/city/'') = (Inl e, b'))"
    and "\<forall>b c e b'. respond env b c = (Inl e, b') \<longrightarrow> is_Exception e"
  shows "\<exists>w'. navigate_to_city env city state w = (Inr False, w')
       \<and> attempts (events w') = attempts (events w) + 3"
proof -
  have n: "never_returns (attempt env city state)" using assms(1) by (rule never_returns_attempt)
  have r: "raises_only is_Exception (attempt env city state)"
    using assms(2) by (rule raises_only_attempt)
  show ?thesis
    unfolding navigate_to_city_def using navigate_loop_gives_up [OF n r, of "[0..<3]" w]
    by simp
qed

theorem navigate_gives_up_after_three_attempts_witness:
  "(\<forall>b. \<exists>e b'. respond stuck_env b (WaitClickable SEARCH_BOX) = (Inl e, b'))
   \<and> fst (navigate_to_city stuck_env ''Austin'' ''TX'' start) = Inr False
   \<and> attempts (events (snd (navigate_to_city stuck_env ''Austin'' ''TX'' start))) = 3"
proof -
  have h1: "\<forall>b. \<exists>e b'. respond stuck_env b (WaitClickable SEARCH_BOX) = (Inl e, b')"
    by (simp add: stuck_env_def)
  have h2: "\<forall>b c e b'. respond stuck_env b c = (Inl e, b') \<longrightarrow> is_Exception e"
  proof (intro allI impI)
    fix b c e b'
    assume "respond stuck_env b c = (Inl e, b')"
    then show "is_Exception e" by (cases c) (auto simp: stuck_env_def is_Exception_def)
  qed
  from navigate_gives_up_after_three_attempts [OF disjI1 [OF h1] h2, of "''Austin''" "''TX''" start]
  obtain w' where "navigate_to_city stuck_env ''Austin'' ''TX'' start = (Inr False, w')"
    and "attempts (events w') = attempts (events start) + 3" by blast
  then show ?thesis using h1 by (simp add: start_def attempts_def)
qed

text \<open>
  Claim C7. When \<^verbatim>\<open>navigate_to_city\<close> returns \<^verbatim>\<open>False\<close>,
  \<^verbatim>\<open>get_median_sale_prices\<close> raises the \<open>ValueError\<close> "Could not navigate to
  {city}, {state} housing market page." (after logging it) and returns no mapping; a
  \<^verbatim>\<open>main\<close> that read this state and city then only prints the error and quits the driver.
\<close>

theorem navigation_failure_raises_ValueError:
  assumes "navigate_to_city env city state w = (Inr False, w')"
  shows "get_median_sale_prices env state city w =
           (Inl (navigation_error city state),
            emit (Log ERROR (''ValueError in get_median_sale_prices: ''
                             @ exn_str (navigation_error city state))) w')
       \<and> is_ValueError (navigation_error city state)
       \<and> exn_str (navigation_error city state)
           = ''Could not navigate to '' @ city @ '', '' @ state @ '' housing market page.''
       \<and> (\<forall>w0 w1. input ''state: '' w0 = (Inr state, w1) \<and> input ''city: '' w1 = (Inr city, w)
            \<longrightarrow> events (snd (main env w0)) =
                  events w'
                  @ [Log ERROR (''ValueError in get_median_sale_prices: ''
                                @ exn_str (navigation_error city state)),
                     Print (''Error in main: '' @ exn_str (navigation_error city state)),
                     Call Quit])"
proof -
  have v: "is_ValueError (navigation_error city state)"
    by (simp add: navigation_error_def is_ValueError_def)
  have x: "is_Exception (navigation_error city state)"
    by (simp add: navigation_error_def is_Exception_def)
  have s: "exn_str (navigation_error city state)
      = ''Could not navigate to '' @ city @ '', '' @ state @ '' housing market page.''"
    by (simp add: navigation_error_def)
  let ?w3 = "emit (Log ERROR (''ValueError in get_median_sale_prices: ''
      @ exn_str (navigation_error city state))) w'"
  have b: "scrape_body env state city w = (Inl (navigation_error city state), w')"
    using assms by (simp add: scrape_body_def then_do_def lift_result_def)
  have g: "get_median_sale_prices env state city w = (Inl (navigation_error city state), ?w3)"
    using b v by (simp add: get_median_sale_prices_def)
  have m: "events (snd (main env w0)) =
      events w' @ [Log ERROR (''ValueError in get_median_sale_prices: ''
                              @ exn_str (navigation_error city state)),
                   Print (''Error in main: '' @ exn_str (navigation_error city state)),
                   Call Quit]"
    if "input ''state: '' w0 = (Inr state, w1) \<and> input ''city: '' w1 = (Inr city, w)"
    for w0 w1
  proof -
    have "main_body env w0 = (Inl (navigation_error city state), ?w3)"
      using that g by (simp add: main_body_def then_do_def)
    from main_events [OF this] show ?thesis using x by (simp add: emit_def)
  qed
  show ?thesis using g v s m by blast
qed

theorem navigation_failure_raises_ValueError_witness:
  "fst (navigate_to_city stuck_env ''Austin'' ''TX'' start) = Inr False
   \<and> fst (get_median_sale_prices stuck_env ''TX'' ''Austin'' start)
       = Inl (navigation_error ''Austin'' ''TX'')
   \<and> exn_str (navigation_error ''Austin'' ''TX'')
       = ''Could not navigate to Austin, TX housing market page.''"
proof -
  have n: "never_returns (attempt stuck_env ''Austin'' ''TX'')"
    by (rule never_returns_attempt) (simp add: stuck_env_def)
  have "\<forall>b c e b'. respond stuck_env b c = (Inl e, b') \<longrightarrow> is_Exception e"
  proof (intro allI impI)
    fix b c e b'
    assume "respond stuck_env b c = (Inl e, b')"
    then show "is_Exception e" by (cases c) (auto simp: stuck_env_def is_Exception_def)
  qed
  then have r: "raises_only is_Exception (attempt stuck_env ''Austin'' ''TX'')"
    by (rule raises_only_attempt)
  from navigate_loop_gives_up [OF n r, of "[0..<3]" start]
  obtain w' where w': "navigate_to_city stuck_env ''Austin'' ''TX'' start = (Inr False, w')"
    unfolding navigate_to_city_def by blast
  from navigation_failure_raises_ValueError [OF w'] show ?thesis
    by (simp add: w')
qed

text \<open>
  Claim C8. The claim is that \<^verbatim>\<open>driver.quit\<close> is invoked exactly once on every path of
  a run. \<^verbatim>\<open>main\<close> does invoke it exactly once, in its \<^verbatim>\<open>finally\<close> block, but leaves
  \<^verbatim>\<open>scraper.driver\<close> set, so the destructor, which only tests \<^verbatim>\<open>self.driver is not None\<close>,
  invokes it again: every run invokes it twice.
\<close>

theorem every_run_quits_twice:
  "quits (events (snd (main env w))) = quits (events w) + 1
   \<and> quits (events (snd (run env w))) = quits (events w) + 2
   \<and> quits (events (snd (run working_env start))) = 2"
proof -
  have "quits (events (snd (run working_env start))) = quits (events start) + 2"
    by (rule run_quits)
  moreover have "quits (events start) = 0" by (simp add: start_def quits_def)
  ultimately have c: "quits (events (snd (run working_env start))) = 2" by simp
  show ?thesis by (intro conjI main_quits run_quits c)
qed

text \<open>
  Claim C9. Once the state and the city are read: if \<^verbatim>\<open>get_median_sale_prices\<close> raises,
  \<^verbatim>\<open>main\<close> does not touch the result file; if it returns a mapping, \<^verbatim>\<open>main\<close> opens
  \<^verbatim>\<open>median_prices.json\<close> for writing and, unless the open fails, dumps that whole mapping
  with indent 2 and closes the file.
\<close>

theorem result_file_written_only_on_success:
  assumes "input ''state: '' w = (Inr state, w1)" and "input ''city: '' w1 = (Inr city, w2)"
  shows "(\<forall>e w3. get_median_sale_prices env state city w2 = (Inl e, w3)
            \<longrightarrow> file_events (events (snd (main env w))) = file_events (events w))
       \<and> (\<forall>prices w3. get_median_sale_prices env state city w2 = (Inr prices, w3)
            \<longrightarrow> file_events (events (snd (main env w))) =
                  file_events (events w)
                  @ (case open_error env of
                       None \<Rightarrow> [OpenForWrite RESULT_FILE, JsonDump prices 2, CloseFile]
                     | Some e \<Rightarrow> [OpenForWrite RESULT_FILE]))"
proof -
  have i1: "file_events (events w1) = file_events (events w)"
    using assms(1) by (auto simp: input_def emit_def file_events_def split: list.splits)
  have i2: "file_events (events w2) = file_events (events w1)"
    using assms(2) by (auto simp: input_def emit_def file_events_def split: list.splits)
  have g: "file_events (events w3) = file_events (events w)"
    if "get_median_sale_prices env state city w2 = (r, w3)" for r w3
  proof -
    have "appends browsing w2 w3"
      using emits_only_get_median_sale_prices [of env state city] that
      by (auto simp: emits_only_def dest: spec [of _ w2])
    then have "file_events (events w3) = file_events (events w2)"
      using browsing_not_file by (rule appends_file_events)
    then show ?thesis using i1 i2 by simp
  qed
  have a: "file_events (events (snd (main env w))) = file_events (events w)"
    if f: "get_median_sale_prices env state city w2 = (Inl e, w3)" for e w3
  proof -
    have "main_body env w = (Inl e, w3)"
      using assms f by (simp add: main_body_def then_do_def)
    from main_events [OF this] show ?thesis using g [OF f] by (simp add: file_events_def)
  qed
  have b: "file_events (events (snd (main env w))) =
      file_events (events w)
      @ (case open_error env of
           None \<Rightarrow> [OpenForWrite RESULT_FILE, JsonDump prices 2, CloseFile]
         | Some e \<Rightarrow> [OpenForWrite RESULT_FILE])"
    if f: "get_median_sale_prices env state city w2 = (Inr prices, w3)" for prices w3
  proof -
    obtain r w4 where mb: "main_body env w = (r, w4)" by (cases "main_body env w")
    have "file_events (events w4) =
      file_events (events w3)
      @ (case open_error env of
           None \<Rightarrow> [OpenForWrite RESULT_FILE, JsonDump prices 2, CloseFile]
         | Some e \<Rightarrow> [OpenForWrite RESULT_FILE])"
      using mb assms f
      by (auto simp: main_body_def then_do_def print_def print_prices_def write_result_def
          emit_def file_events_def filter_empty_conv split: option.splits)
    then show ?thesis
      unfolding main_events [OF mb] using g [OF f]
      by (cases r) (simp_all add: file_events_def)
  qed
  show ?thesis using a b by blast
qed

theorem result_file_written_only_on_success_witness:
  "file_events (events (snd (main working_env start)))
     = [OpenForWrite RESULT_FILE,
        JsonDump (series_of (synthetic_series jan31 (Finite 450000) (\<lambda>a b i. b))) 2,
        CloseFile]
   \<and> file_events (events (snd (main stuck_env start))) = []
   \<and> fst (get_median_sale_prices stuck_env ''TX'' ''Austin''
        \<lparr>browser = 0, stdin = [], events = [Input ''state: '', Input ''city: '']\<rparr>)
       = Inl (navigation_error ''Austin'' ''TX'')"
proof -
  let ?w2 = "\<lparr>browser = 0::nat, stdin = [], events = [Input ''state: '', Input ''city: '']\<rparr>"
  obtain md where md: "synthetic_series jan31 (Finite 450000) (\<lambda>a b i. b) = Inr md"
    using jan31_series_runs by blast
  obtain r w3 where g: "get_median_sale_prices working_env ''TX'' ''Austin'' ?w2 = (r, w3)"
    by (cases "get_median_sale_prices working_env ''TX'' ''Austin'' ?w2")
  have "r = Inr md" using working_price [of ?w2] g md by simp
  then have g': "get_median_sale_prices working_env ''TX'' ''Austin'' ?w2 = (Inr md, w3)"
    using g by simp
  have o: "open_error working_env = None" by (simp add: working_env_def)
  have f0: "file_events (events start) = []" by (simp add: start_def file_events_def)
  have a: "file_events (events (snd (main working_env start)))
      = [OpenForWrite RESULT_FILE, JsonDump md 2, CloseFile]"
    using result_file_written_only_on_success [OF start_inputs, of working_env] g' o f0
    by simp
  obtain w' where "navigate_to_city stuck_env ''Austin'' ''TX'' ?w2 = (Inr False, w')"
    using stuck_navigation by blast
  from failed_navigation_raises [OF this] obtain w4 where
    s: "get_median_sale_prices stuck_env ''TX'' ''Austin'' ?w2
        = (Inl (navigation_error ''Austin'' ''TX''), w4)" by blast
  have b: "file_events (events (snd (main stuck_env start))) = []"
    using result_file_written_only_on_success [OF start_inputs, of stuck_env] s f0 by simp
  show ?thesis using a b s by (simp add: md series_of_def)
qed

end
